theory Spec2Isabelle
  imports Complex_Main "HOL-Library.Char_ord" "HOL-Library.List_Lexorder" "HOL-Library.Multiset"
begin

section \<open>Metadata records (utils.py)\<close>

text \<open>
  The dataclass \<^verbatim>\<open>FileMetadata\<close>.  Filenames are Python strings compared
  lexicographically; \<^verbatim>\<open>__lt__\<close> and \<^verbatim>\<open>__eq__\<close> of the class look at the
  filename only.  The timestamp is kept as an integer instant.
\<close>

record FileMetadata =
  filename :: string
  owner :: string
  timestamp :: int
  tags :: "string list"
  permissions :: string
  file_size :: int
  file_id :: string

definition md_lt :: "FileMetadata \<Rightarrow> FileMetadata \<Rightarrow> bool" where
  "md_lt a b = (filename a < filename b)"

section \<open>Results of operations\<close>

text \<open>
  Python exceptions are values.  \<open>OutOfFuel\<close> is the answer of a recursion that
  was given too small a recursion budget; it is not a Python value.
\<close>

datatype error = ZeroDivisionError | IndexError

datatype 'a result = Ok 'a | Raise error | OutOfFuel

fun result_fold :: "('s \<Rightarrow> 'a \<Rightarrow> 's result) \<Rightarrow> 's \<Rightarrow> 'a list \<Rightarrow> 's result" where
  "result_fold f s [] = Ok s"
| "result_fold f s (x # xs) =
     (case f s x of Ok s' \<Rightarrow> result_fold f s' xs | Raise e \<Rightarrow> Raise e | OutOfFuel \<Rightarrow> OutOfFuel)"

section \<open>The tag index shared by the three backends\<close>

text \<open>
  Every backend owns \<^verbatim>\<open>self.tag_index = defaultdict(list)\<close>.  The values of the
  dictionary are list objects, which Python handles by reference; the model keeps the
  list objects in a store indexed by reference, so that a copy is a different object
  from its original.
\<close>

record tag_store =
  tag_index :: "string \<rightharpoonup> nat"
  list_objs :: "nat \<Rightarrow> FileMetadata list"
  next_ref :: nat

text \<open>A new list object: \<^verbatim>\<open>[]\<close>, \<^verbatim>\<open>list()\<close> or \<^verbatim>\<open>xs.copy()\<close>.\<close>

definition new_list :: "'a tag_store_scheme \<Rightarrow> FileMetadata list \<Rightarrow> nat \<times> 'a tag_store_scheme" where
  "new_list st xs =
     (next_ref st, st\<lparr>list_objs := (list_objs st)(next_ref st := xs), next_ref := Suc (next_ref st)\<rparr>)"

text \<open>\<^verbatim>\<open>self.tag_index[tag]\<close> on a defaultdict: a missing key is created with a new list.\<close>

definition tag_getitem :: "'a tag_store_scheme \<Rightarrow> string \<Rightarrow> nat \<times> 'a tag_store_scheme" where
  "tag_getitem st tag =
     (case tag_index st tag of
        Some r \<Rightarrow> (r, st)
      | None \<Rightarrow>
          (let (r, st1) = new_list st [] in (r, st1\<lparr>tag_index := (tag_index st1)(tag \<mapsto> r)\<rparr>)))"

text \<open>\<^verbatim>\<open>lst.append(x)\<close> on the list object with reference \<open>r\<close>.\<close>

definition list_append :: "'a tag_store_scheme \<Rightarrow> nat \<Rightarrow> FileMetadata \<Rightarrow> 'a tag_store_scheme" where
  "list_append st r x = st\<lparr>list_objs := (list_objs st)(r := list_objs st r @ [x])\<rparr>"

text \<open>\<^verbatim>\<open>self.tag_index[tag].append(metadata)\<close>\<close>

definition tag_append :: "'a tag_store_scheme \<Rightarrow> string \<Rightarrow> FileMetadata \<Rightarrow> 'a tag_store_scheme" where
  "tag_append st tag md = (let (r, st1) = tag_getitem st tag in list_append st1 r md)"

text \<open>\<^verbatim>\<open>for tag in metadata.tags: self.tag_index[tag].append(metadata)\<close>\<close>

definition update_tag_index :: "'a tag_store_scheme \<Rightarrow> FileMetadata \<Rightarrow> 'a tag_store_scheme" where
  "update_tag_index st md = foldl (\<lambda>s tag. tag_append s tag md) st (tags md)"

text \<open>
  \<^verbatim>\<open>return self.tag_index.get(tag, []).copy()\<close>: the default list is built first,
  \<^verbatim>\<open>get\<close> does not store it, and the copy is one more new list object.  The result
  is the reference of the copy together with the state the call leaves behind.
\<close>

definition search_by_tag :: "'a tag_store_scheme \<Rightarrow> string \<Rightarrow> nat \<times> 'a tag_store_scheme" where
  "search_by_tag st tag =
     (let (d, st1) = new_list st [];
          r = (case tag_index st1 tag of Some r \<Rightarrow> r | None \<Rightarrow> d)
      in new_list st1 (list_objs st1 r))"

text \<open>What a caller reads from a returned list reference.\<close>

definition list_of :: "nat \<times> 'a tag_store_scheme \<Rightarrow> FileMetadata list" where
  "list_of p = list_objs (snd p) (fst p)"

text \<open>The sequence the index holds for a tag (empty when the tag has no entry).\<close>

definition tag_contents :: "'a tag_store_scheme \<Rightarrow> string \<Rightarrow> FileMetadata list" where
  "tag_contents st tag = (case tag_index st tag of None \<Rightarrow> [] | Some r \<Rightarrow> list_objs st r)"

text \<open>The empty index of \<^verbatim>\<open>__init__\<close>.\<close>

definition tag_wf :: "'a tag_store_scheme \<Rightarrow> bool" where
  "tag_wf st \<longleftrightarrow> inj_on (tag_index st) (dom (tag_index st)) \<and> (\<forall>r \<in> ran (tag_index st). r < next_ref st)"

section \<open>Hash table backend (hashmap.py)\<close>

text \<open>
  Python's \<^verbatim>\<open>hash\<close> on strings is a parameter \<open>hf\<close> of the model.

  \<^verbatim>\<open>self.size / self.capacity\<close> is Python's true division of two ints: the IEEE 754
  double nearest to the exact quotient, ties going to the even significand.  A double is
  held as the rational it denotes.  \<open>norm_up\<close> and \<open>norm_down\<close> scale a positive
  rational to a significand below \<open>2 ^ 53\<close> at the largest exponent not below
  \<open>- 1074\<close> that leaves it at least \<open>2 ^ 52\<close> (so subnormals keep exponent
  \<open>- 1074\<close>), and \<open>round_half_even\<close> rounds the significand.  The load factor is a
  finite float or an int of the source, held as a rational too, and \<^verbatim>\<open>>\<close> between
  a float and a float or an int compares the exact values.  Python raises
  \<^verbatim>\<open>OverflowError\<close> for a quotient of \<open>2 ^ 1024\<close> or more; a table reaches that
  only with more than \<open>2 ^ 1023\<close> stored records, and the rounding below has no upper
  limit on the exponent.
\<close>

definition round_half_even :: "rat \<Rightarrow> int" where
  "round_half_even x =
     (let f = \<lfloor>x\<rfloor>; d = x - of_int f
      in if d < 1 / 2 then f else if 1 / 2 < d then f + 1 else if even f then f else f + 1)"

function norm_up :: "rat \<Rightarrow> int \<Rightarrow> rat \<times> int" where
  "norm_up m e = (if 2 ^ 53 \<le> m then norm_up (m / 2) (e + 1) else (m, e))"
  by pat_completeness auto
termination
proof (relation "measure (\<lambda>(m, e). nat \<lfloor>m\<rfloor>)")
  show "wf (measure (\<lambda>(m, e). nat \<lfloor>m\<rfloor>))" by simp
next
  fix m :: rat and e :: int
  assume a: "2 ^ 53 \<le> m"
  then have "1 \<le> m / 2" by simp
  then have "m / 2 + 1 \<le> m" by simp
  then have "\<lfloor>m / 2 + 1\<rfloor> \<le> \<lfloor>m\<rfloor>" by (rule floor_mono)
  then have "\<lfloor>m / 2\<rfloor> + 1 \<le> \<lfloor>m\<rfloor>" by simp
  moreover have "0 \<le> \<lfloor>m / 2\<rfloor>" using a by simp
  ultimately show "((m / 2, e + 1), (m, e)) \<in> measure (\<lambda>(m, e). nat \<lfloor>m\<rfloor>)" using a by simp
qed

function norm_down :: "rat \<Rightarrow> int \<Rightarrow> rat \<times> int" where
  "norm_down m e = (if m < 2 ^ 52 \<and> - 1074 < e then norm_down (2 * m) (e - 1) else (m, e))"
  by pat_completeness auto
termination by (relation "measure (\<lambda>(m, e). nat (e + 1074))") auto

definition round_pos :: "rat \<Rightarrow> rat" where
  "round_pos q =
     (let (m, e) = norm_up q 0; (m', e') = norm_down m e
      in of_int (round_half_even m') * 2 powi e')"

definition round_double :: "rat \<Rightarrow> rat" where
  "round_double q = (if q = 0 then 0 else if q < 0 then - round_pos (- q) else round_pos q)"

text \<open>\<^verbatim>\<open>n / c\<close> for ints \<open>n \<ge> 0\<close> and \<open>c > 0\<close>.\<close>

definition float_div :: "nat \<Rightarrow> nat \<Rightarrow> rat" where
  "float_div n c = round_double (of_nat n / of_nat c)"

record HashTableIndex = tag_store +
  capacity :: nat
  load_factor :: rat
  size_h :: nat
  buckets :: "FileMetadata list list"

definition ht_init :: "nat \<Rightarrow> rat \<Rightarrow> HashTableIndex" where
  "ht_init initial_capacity lf =
     \<lparr>tag_index = Map.empty, list_objs = (\<lambda>_. []), next_ref = 0,
      capacity = initial_capacity, load_factor = lf, size_h = 0,
      buckets = replicate initial_capacity []\<rparr>"

text \<open>\<^verbatim>\<open>hash(key) % self.capacity\<close>; the remainder has the sign of the capacity.\<close>

definition ht_hash :: "(string \<Rightarrow> int) \<Rightarrow> HashTableIndex \<Rightarrow> string \<Rightarrow> nat result" where
  "ht_hash hf st key =
     (if capacity st = 0 then Raise ZeroDivisionError
      else Ok (nat (hf key mod int (capacity st))))"

text \<open>
  The scan of \<^verbatim>\<open>_insert_no_lock\<close> for an equal filename: the bucket with the first
  match replaced, or \<open>None\<close> when the loop ends without a match.
\<close>

fun bucket_replace :: "FileMetadata list \<Rightarrow> FileMetadata \<Rightarrow> FileMetadata list option" where
  "bucket_replace [] md = None"
| "bucket_replace (item # rest) md =
     (if filename item = filename md then Some (md # rest)
      else map_option ((#) item) (bucket_replace rest md))"

text \<open>
  \<^verbatim>\<open>_resize\<close>, with the reinsertion passed in: \<^verbatim>\<open>_insert_no_lock\<close> and
  \<^verbatim>\<open>_resize\<close> call each other, and the recursion budget of the pair is threaded by
  \<open>ht_insert_no_lock\<close> below.
\<close>

definition ht_resize_with ::
  "(HashTableIndex \<Rightarrow> FileMetadata \<Rightarrow> HashTableIndex result) \<Rightarrow> HashTableIndex \<Rightarrow> HashTableIndex result" where
  "ht_resize_with ins st =
     (let old_buckets = buckets st;
          st1 = st\<lparr>capacity := capacity st * 2\<rparr>;
          st2 = st1\<lparr>buckets := replicate (capacity st1) []\<rparr>;
          st3 = st2\<lparr>size_h := 0\<rparr>
      in result_fold (\<lambda>s bucket. result_fold ins s bucket) st3 old_buckets)"

primrec ht_insert_no_lock ::
  "(string \<Rightarrow> int) \<Rightarrow> nat \<Rightarrow> HashTableIndex \<Rightarrow> FileMetadata \<Rightarrow> HashTableIndex result" where
  "ht_insert_no_lock hf 0 st md = OutOfFuel"
| "ht_insert_no_lock hf (Suc n) st md =
     (case ht_hash hf st (filename md) of
        Raise e \<Rightarrow> Raise e
      | OutOfFuel \<Rightarrow> OutOfFuel
      | Ok index \<Rightarrow>
          if length (buckets st) \<le> index then Raise IndexError
          else
            (case bucket_replace (buckets st ! index) md of
               Some b \<Rightarrow> Ok (st\<lparr>buckets := (buckets st)[index := b]\<rparr>)
             | None \<Rightarrow>
                 (let st1 = st\<lparr>buckets := (buckets st)[index := buckets st ! index @ [md]]\<rparr>;
                      st2 = st1\<lparr>size_h := size_h st1 + 1\<rparr>
                  in if float_div (size_h st2) (capacity st2) > load_factor st2
                     then ht_resize_with (ht_insert_no_lock hf n) st2
                     else Ok st2)))"

definition ht_resize :: "(string \<Rightarrow> int) \<Rightarrow> nat \<Rightarrow> HashTableIndex \<Rightarrow> HashTableIndex result" where
  "ht_resize hf n st = ht_resize_with (ht_insert_no_lock hf n) st"

definition ht_insert ::
  "(string \<Rightarrow> int) \<Rightarrow> nat \<Rightarrow> HashTableIndex \<Rightarrow> FileMetadata \<Rightarrow> HashTableIndex result" where
  "ht_insert hf fuel st md =
     (case ht_insert_no_lock hf fuel st md of
        Ok st1 \<Rightarrow> Ok (update_tag_index st1 md)
      | Raise e \<Rightarrow> Raise e
      | OutOfFuel \<Rightarrow> OutOfFuel)"

definition ht_search_by_filename ::
  "(string \<Rightarrow> int) \<Rightarrow> HashTableIndex \<Rightarrow> string \<Rightarrow> FileMetadata option result" where
  "ht_search_by_filename hf st name =
     (case ht_hash hf st name of
        Raise e \<Rightarrow> Raise e
      | OutOfFuel \<Rightarrow> OutOfFuel
      | Ok index \<Rightarrow>
          if length (buckets st) \<le> index then Raise IndexError
          else Ok (find (\<lambda>m. filename m = name) (buckets st ! index)))"

definition ht_search_by_tag :: "HashTableIndex \<Rightarrow> string \<Rightarrow> nat \<times> HashTableIndex" where
  "ht_search_by_tag st tag = search_by_tag st tag"

text \<open>
  \<^verbatim>\<open>all_files.sort(key=..., reverse=(order == 'desc'))\<close>: Python's sort is stable,
  also with \<^verbatim>\<open>reverse=True\<close>, where records with equal keys keep their order.
\<close>

definition ht_list_files :: "HashTableIndex \<Rightarrow> string \<Rightarrow> FileMetadata list" where
  "ht_list_files st ord =
     (let all_files = concat (buckets st)
      in if ord = ''desc'' then rev (sort_key filename (rev all_files))
         else sort_key filename all_files)"

definition ht_get_size :: "HashTableIndex \<Rightarrow> nat" where
  "ht_get_size st = size_h st"

definition ht_get_capacity :: "HashTableIndex \<Rightarrow> nat" where
  "ht_get_capacity st = capacity st"

text \<open>A sequence of \<^verbatim>\<open>insert\<close> calls, each with the same recursion budget.\<close>

definition ht_inserts ::
  "(string \<Rightarrow> int) \<Rightarrow> nat \<Rightarrow> HashTableIndex \<Rightarrow> FileMetadata list \<Rightarrow> HashTableIndex result" where
  "ht_inserts hf fuel st mds = result_fold (ht_insert hf fuel) st mds"

section \<open>2-3 tree backend (twoThreeTree.py)\<close>

text \<open>
  A node owns its key list and its children, and no node is shared: the nodes are a
  datatype.  A method that mutates a node in place returns the node as it leaves it.
\<close>

datatype TwoThreeNode = Node (tkeys: "FileMetadata list") (tchildren: "TwoThreeNode list")

record TwoThreeTree = tag_store +
  root_t :: "TwoThreeNode option"
  size_t :: nat
  height_t :: nat

definition tt_init :: TwoThreeTree where
  "tt_init = \<lparr>tag_index = Map.empty, list_objs = (\<lambda>_. []), next_ref = 0,
              root_t = None, size_t = 0, height_t = 0\<rparr>"

definition rbind :: "'a result \<Rightarrow> ('a \<Rightarrow> 'b result) \<Rightarrow> 'b result" where
  "rbind r f = (case r of Ok x \<Rightarrow> f x | Raise e \<Rightarrow> Raise e | OutOfFuel \<Rightarrow> OutOfFuel)"

definition is_leaf_t :: "TwoThreeNode \<Rightarrow> bool" where
  "is_leaf_t node = (length (tchildren node) = 0)"

text \<open>
  The loop \<^verbatim>\<open>for i, x in enumerate(xs): if p(x): ...\<close>: the index of the first
  element that passes the test.
\<close>

fun first_index :: "('a \<Rightarrow> bool) \<Rightarrow> 'a list \<Rightarrow> nat option" where
  "first_index p [] = None"
| "first_index p (x # xs) = (if p x then Some 0 else map_option Suc (first_index p xs))"

text \<open>\<^verbatim>\<open>xs.insert(i, x)\<close>; an index beyond the end appends.\<close>

definition list_insert :: "'a list \<Rightarrow> nat \<Rightarrow> 'a \<Rightarrow> 'a list" where
  "list_insert xs i x = take i xs @ x # drop i xs"

text \<open>\<^verbatim>\<open>_split_node\<close>: keys 0, 1, 2 are read, children are sliced.\<close>

definition split_node :: "TwoThreeNode \<Rightarrow> TwoThreeNode result" where
  "split_node node =
     (case tkeys node of
        k0 # k1 # k2 # _ \<Rightarrow>
          (let left = Node [k0] (if \<not> is_leaf_t node then take 2 (tchildren node) else []);
               right = Node [k2] (if \<not> is_leaf_t node then take 2 (drop 2 (tchildren node)) else [])
           in Ok (Node [k1] [left, right]))
      | _ \<Rightarrow> Raise IndexError)"

text \<open>
  \<^verbatim>\<open>_insert_into_node\<close>: the node after the in-place insertion, and the carrier
  that is returned (\<open>None\<close> for Python's \<^verbatim>\<open>None\<close>).
\<close>

definition insert_into_node ::
  "TwoThreeNode \<Rightarrow> FileMetadata \<Rightarrow> (TwoThreeNode \<times> TwoThreeNode option) result" where
  "insert_into_node node md =
     (let ks = (case first_index (\<lambda>key. md_lt md key) (tkeys node) of
                  Some i \<Rightarrow> list_insert (tkeys node) i md
                | None \<Rightarrow> tkeys node @ [md]);
          node1 = Node ks (tchildren node)
      in if length (tkeys node1) = 3
         then rbind (split_node node1) (\<lambda>c. Ok (node1, Some c))
         else Ok (node1, None))"

text \<open>\<^verbatim>\<open>_insert_into_internal\<close>\<close>

definition insert_into_internal ::
  "TwoThreeNode \<Rightarrow> FileMetadata \<Rightarrow> TwoThreeNode \<Rightarrow> nat \<Rightarrow> (TwoThreeNode \<times> TwoThreeNode option) result" where
  "insert_into_internal node middle_key new_child child_index =
     (case tchildren new_child of
        c0 # c1 # _ \<Rightarrow>
          (let node1 = (case first_index (\<lambda>key. md_lt middle_key key) (tkeys node) of
                          Some i \<Rightarrow> Node (list_insert (tkeys node) i middle_key)
                                         (list_insert (tchildren node) (i + 1) c1)
                        | None \<Rightarrow> Node (tkeys node @ [middle_key]) (tchildren node @ [c1]))
           in if length (tchildren node1) \<le> child_index then Raise IndexError
              else
                (let node2 = Node (tkeys node1) ((tchildren node1)[child_index := c0])
                 in if length (tkeys node2) = 3
                    then rbind (split_node node2) (\<lambda>c. Ok (node2, Some c))
                    else Ok (node2, None)))
      | _ \<Rightarrow> Raise IndexError)"

text \<open>\<^verbatim>\<open>_find_child_index\<close>\<close>

definition find_child_index :: "TwoThreeNode \<Rightarrow> FileMetadata \<Rightarrow> nat" where
  "find_child_index node md =
     (case first_index (\<lambda>key. md_lt md key) (tkeys node) of
        Some i \<Rightarrow> i
      | None \<Rightarrow> length (tkeys node))"

lemma size_nth_child: "i < length cs \<Longrightarrow> size (cs ! i) < Suc (size_list size cs)"
proof (induction cs arbitrary: i)
  case Nil
  then show ?case by simp
next
  case (Cons a cs)
  show ?case
  proof (cases i)
    case 0
    then show ?thesis by simp
  next
    case (Suc j)
    with Cons.prems Cons.IH [of j] show ?thesis by simp
  qed
qed

lemma size_last_child: "cs \<noteq> [] \<Longrightarrow> size (last cs) < Suc (size_list size cs)"
  using size_nth_child [of "length cs - 1" cs] by (simp add: last_conv_nth)

lemma size_tchildren_nth: "i < length (tchildren node) \<Longrightarrow> size (tchildren node ! i) < size node"
  using size_nth_child [of i "tchildren node"] by (cases node) simp

lemma rbind_cong [fundef_cong]:
  "r = r' \<Longrightarrow> (\<And>x. r' = Ok x \<Longrightarrow> f x = f' x) \<Longrightarrow> rbind r f = rbind r' f'"
  by (auto simp: rbind_def split: result.splits)

text \<open>\<^verbatim>\<open>_insert_helper\<close>\<close>

function insert_helper ::
  "TwoThreeNode \<Rightarrow> FileMetadata \<Rightarrow> (TwoThreeNode \<times> TwoThreeNode option) result" where
  "insert_helper node md =
     (if is_leaf_t node then insert_into_node node md
      else
        (let child_index = find_child_index node md
         in if length (tchildren node) \<le> child_index then Raise IndexError
            else
              rbind (insert_helper (tchildren node ! child_index) md)
                (\<lambda>(child1, new_child).
                   let node1 = Node (tkeys node) ((tchildren node)[child_index := child1])
                   in case new_child of
                        Some nc \<Rightarrow>
                          (case tkeys nc of
                             middle_key # _ \<Rightarrow> insert_into_internal node1 middle_key nc child_index
                           | [] \<Rightarrow> Raise IndexError)
                      | None \<Rightarrow> Ok (node1, None))))"
  by pat_completeness auto
termination
  by (relation "measure (\<lambda>(node, md). size node)") (auto simp: size_tchildren_nth)

text \<open>\<^verbatim>\<open>insert\<close>\<close>

definition tt_insert :: "TwoThreeTree \<Rightarrow> FileMetadata \<Rightarrow> TwoThreeTree result" where
  "tt_insert st md =
     rbind
       (case root_t st of
          None \<Rightarrow> Ok (st\<lparr>root_t := Some (Node [md] []), height_t := 1\<rparr>)
        | Some r \<Rightarrow>
            rbind (insert_helper r md)
              (\<lambda>(r1, new_root).
                 case new_root of
                   Some nr \<Rightarrow> Ok (st\<lparr>root_t := Some nr, height_t := height_t st + 1\<rparr>)
                 | None \<Rightarrow> Ok (st\<lparr>root_t := Some r1\<rparr>)))
       (\<lambda>st1. Ok (update_tag_index (st1\<lparr>size_t := size_t st1 + 1\<rparr>) md))"

text \<open>\<^verbatim>\<open>_inorder_traversal\<close>, returning what it appends to \<^verbatim>\<open>result\<close>.\<close>

function inorder_traversal :: "TwoThreeNode \<Rightarrow> FileMetadata list result"
  and inorder_loop :: "FileMetadata list \<Rightarrow> TwoThreeNode list \<Rightarrow> FileMetadata list result" where
  "inorder_traversal (Node ks cs) =
     (if length cs = 0 then Ok ks
      else
        rbind (inorder_loop ks cs)
          (\<lambda>r. rbind (inorder_traversal (last cs)) (\<lambda>r1. Ok (r @ r1))))"
| "inorder_loop [] cs = Ok []"
| "inorder_loop (key # ks) [] = Raise IndexError"
| "inorder_loop (key # ks) (c # cs) =
     rbind (inorder_traversal c)
       (\<lambda>r. rbind (inorder_loop ks cs) (\<lambda>r1. Ok (r @ [key] @ r1)))"
  by pat_completeness auto
termination
  by (relation "measure (\<lambda>x. case x of Inl n \<Rightarrow> 2 * size n | Inr (ks, cs) \<Rightarrow> 2 * size_list size cs + 1)")
     (use size_last_child in \<open>force+\<close>)

definition tt_list_files :: "TwoThreeTree \<Rightarrow> string \<Rightarrow> FileMetadata list result" where
  "tt_list_files st ord =
     rbind (case root_t st of None \<Rightarrow> Ok [] | Some r \<Rightarrow> inorder_traversal r)
       (\<lambda>result. Ok (if ord = ''desc'' then rev result else result))"

definition tt_search_by_tag :: "TwoThreeTree \<Rightarrow> string \<Rightarrow> nat \<times> TwoThreeTree" where
  "tt_search_by_tag st tag = search_by_tag st tag"

definition tt_get_height :: "TwoThreeTree \<Rightarrow> nat" where
  "tt_get_height st = height_t st"

definition tt_get_size :: "TwoThreeTree \<Rightarrow> nat" where
  "tt_get_size st = size_t st"

definition tt_inserts :: "TwoThreeTree \<Rightarrow> FileMetadata list \<Rightarrow> TwoThreeTree result" where
  "tt_inserts st mds = result_fold tt_insert st mds"

section \<open>B+ tree backend (bPlusTree.py)\<close>

text \<open>
  Nodes refer to each other through \<^verbatim>\<open>children\<close>, \<^verbatim>\<open>next\<close> and \<^verbatim>\<open>parent\<close>,
  so they live in a store indexed by reference; \<open>next_node\<close> is the first unused
  reference.  The Python field \<^verbatim>\<open>keys\<close> holds records in a leaf and filenames in an
  internal node: the model has \<open>keys\<close> for the first use and \<open>ikeys\<close> for the second.
\<close>

record BPlusNode =
  node_order :: nat
  keys :: "FileMetadata list"
  ikeys :: "string list"
  children :: "nat list"
  is_leaf :: bool
  next_leaf :: "nat option"
  parent :: "nat option"

record BPlusTree = tag_store +
  order_b :: nat
  root_b :: nat
  size_b :: nat
  height_b :: nat
  heap :: "nat \<Rightarrow> BPlusNode"
  next_node :: nat

text \<open>\<^verbatim>\<open>BPlusNode(order, is_leaf)\<close>\<close>

definition new_node :: "nat \<Rightarrow> bool \<Rightarrow> BPlusNode" where
  "new_node ord lf =
     \<lparr>node_order = ord, keys = [], ikeys = [], children = [], is_leaf = lf,
      next_leaf = None, parent = None\<rparr>"

definition alloc :: "BPlusTree \<Rightarrow> BPlusNode \<Rightarrow> nat \<times> BPlusTree" where
  "alloc st nd = (next_node st, st\<lparr>heap := (heap st)(next_node st := nd), next_node := Suc (next_node st)\<rparr>)"

text \<open>An assignment to attributes of the node object with reference \<open>a\<close>.\<close>

definition node_upd :: "BPlusTree \<Rightarrow> nat \<Rightarrow> (BPlusNode \<Rightarrow> BPlusNode) \<Rightarrow> BPlusTree" where
  "node_upd st a f = st\<lparr>heap := (heap st)(a := f (heap st a))\<rparr>"

definition bp_init :: "nat \<Rightarrow> BPlusTree" where
  "bp_init ord =
     \<lparr>tag_index = Map.empty, list_objs = (\<lambda>_. []), next_ref = 0,
      order_b = ord, root_b = 0, size_b = 0, height_b = 1,
      heap = (\<lambda>_. new_node ord True), next_node = 1\<rparr>"

text \<open>\<^verbatim>\<open>_find_leaf\<close>; the budget bounds the depth of the recursion.\<close>

primrec find_leaf :: "nat \<Rightarrow> BPlusTree \<Rightarrow> nat \<Rightarrow> string \<Rightarrow> nat result" where
  "find_leaf 0 st node name = OutOfFuel"
| "find_leaf (Suc n) st node name =
     (if is_leaf (heap st node) then Ok node
      else
        (case first_index (\<lambda>key. name < key) (ikeys (heap st node)) of
           Some i \<Rightarrow>
             if length (children (heap st node)) \<le> i then Raise IndexError
             else find_leaf n st (children (heap st node) ! i) name
         | None \<Rightarrow>
             if children (heap st node) = [] then Raise IndexError
             else find_leaf n st (last (children (heap st node))) name))"

text \<open>The key list of a leaf after \<^verbatim>\<open>_insert_into_leaf\<close>.\<close>

fun leaf_insert :: "FileMetadata list \<Rightarrow> FileMetadata \<Rightarrow> FileMetadata list" where
  "leaf_insert [] md = [md]"
| "leaf_insert (existing # rest) md =
     (if filename md = filename existing then md # rest
      else if filename md < filename existing then md # existing # rest
      else existing # leaf_insert rest md)"

definition insert_into_leaf :: "BPlusTree \<Rightarrow> nat \<Rightarrow> FileMetadata \<Rightarrow> BPlusTree" where
  "insert_into_leaf st leaf md = node_upd st leaf (\<lambda>x. x\<lparr>keys := leaf_insert (keys x) md\<rparr>)"

text \<open>The branch \<^verbatim>\<open>if node.parent is None\<close> of both split methods: a new root.\<close>

definition make_new_root :: "BPlusTree \<Rightarrow> string \<Rightarrow> nat \<Rightarrow> nat \<Rightarrow> BPlusTree" where
  "make_new_root st push_up_key node sibling =
     (let (new_root, st1) = alloc st (new_node (order_b st) False);
          st2 = node_upd st1 new_root (\<lambda>x. x\<lparr>ikeys := [push_up_key]\<rparr>);
          st3 = node_upd st2 new_root (\<lambda>x. x\<lparr>children := [node, sibling]\<rparr>);
          st4 = node_upd st3 node (\<lambda>x. x\<lparr>parent := Some new_root\<rparr>);
          st5 = node_upd st4 sibling (\<lambda>x. x\<lparr>parent := Some new_root\<rparr>);
          st6 = st5\<lparr>root_b := new_root\<rparr>
      in st6\<lparr>height_b := height_b st6 + 1\<rparr>)"

text \<open>
  \<^verbatim>\<open>_split_internal\<close>, with \<^verbatim>\<open>_insert_into_parent\<close> passed in: the two methods
  call each other, and \<open>insert_into_parent\<close> below threads the budget of the pair.
\<close>

definition split_internal_with ::
  "(BPlusTree \<Rightarrow> nat \<Rightarrow> string \<Rightarrow> nat \<Rightarrow> BPlusTree result) \<Rightarrow> BPlusTree \<Rightarrow> nat \<Rightarrow> BPlusTree result" where
  "split_internal_with ins st node =
     (let mid = length (ikeys (heap st node)) div 2
      in if length (ikeys (heap st node)) \<le> mid then Raise IndexError
         else
           (let push_up_key = ikeys (heap st node) ! mid;
                (sibling, st1) = alloc st (new_node (order_b st) False);
                st2 = node_upd st1 sibling (\<lambda>x. x\<lparr>ikeys := drop (mid + 1) (ikeys (heap st1 node))\<rparr>);
                st3 = node_upd st2 sibling (\<lambda>x. x\<lparr>children := drop (mid + 1) (children (heap st2 node))\<rparr>);
                st4 = node_upd st3 node (\<lambda>x. x\<lparr>ikeys := take mid (ikeys x)\<rparr>);
                st5 = node_upd st4 node (\<lambda>x. x\<lparr>children := take (mid + 1) (children x)\<rparr>);
                st6 = foldl (\<lambda>s child. node_upd s child (\<lambda>x. x\<lparr>parent := Some sibling\<rparr>))
                        st5 (children (heap st5 sibling))
            in case parent (heap st6 node) of
                 None \<Rightarrow> Ok (make_new_root st6 push_up_key node sibling)
               | Some p \<Rightarrow> ins st6 p push_up_key sibling))"

text \<open>\<^verbatim>\<open>_insert_into_parent\<close>\<close>

primrec insert_into_parent ::
  "nat \<Rightarrow> BPlusTree \<Rightarrow> nat \<Rightarrow> string \<Rightarrow> nat \<Rightarrow> BPlusTree result" where
  "insert_into_parent 0 st par key new_child = OutOfFuel"
| "insert_into_parent (Suc n) st par key new_child =
     (let st1 = (case first_index (\<lambda>existing_key. key < existing_key) (ikeys (heap st par)) of
                   Some i \<Rightarrow>
                     node_upd (node_upd st par (\<lambda>x. x\<lparr>ikeys := list_insert (ikeys x) i key\<rparr>))
                       par (\<lambda>x. x\<lparr>children := list_insert (children x) (i + 1) new_child\<rparr>)
                 | None \<Rightarrow>
                     node_upd (node_upd st par (\<lambda>x. x\<lparr>ikeys := ikeys x @ [key]\<rparr>))
                       par (\<lambda>x. x\<lparr>children := children x @ [new_child]\<rparr>));
          st2 = node_upd st1 new_child (\<lambda>x. x\<lparr>parent := Some par\<rparr>)
      in if order_b st2 \<le> length (ikeys (heap st2 par))
         then split_internal_with (insert_into_parent n) st2 par
         else Ok st2)"

definition split_internal :: "nat \<Rightarrow> BPlusTree \<Rightarrow> nat \<Rightarrow> BPlusTree result" where
  "split_internal n st node = split_internal_with (insert_into_parent n) st node"

text \<open>\<^verbatim>\<open>_split_leaf\<close>\<close>

definition split_leaf :: "nat \<Rightarrow> BPlusTree \<Rightarrow> nat \<Rightarrow> BPlusTree result" where
  "split_leaf n st leaf =
     (let mid = length (keys (heap st leaf)) div 2;
          (new_leaf, st1) = alloc st (new_node (order_b st) True);
          st2 = node_upd st1 new_leaf (\<lambda>x. x\<lparr>keys := drop mid (keys (heap st1 leaf))\<rparr>);
          st3 = node_upd st2 new_leaf (\<lambda>x. x\<lparr>next_leaf := next_leaf (heap st2 leaf)\<rparr>);
          st4 = node_upd st3 leaf (\<lambda>x. x\<lparr>keys := take mid (keys x)\<rparr>);
          st5 = node_upd st4 leaf (\<lambda>x. x\<lparr>next_leaf := Some new_leaf\<rparr>)
      in case keys (heap st5 new_leaf) of
           [] \<Rightarrow> Raise IndexError
         | k # _ \<Rightarrow>
             (let push_up_key = filename k
              in case parent (heap st5 leaf) of
                   None \<Rightarrow> Ok (make_new_root st5 push_up_key leaf new_leaf)
                 | Some p \<Rightarrow> insert_into_parent n st5 p push_up_key new_leaf))"

text \<open>\<^verbatim>\<open>insert\<close>\<close>

definition bp_insert :: "nat \<Rightarrow> BPlusTree \<Rightarrow> FileMetadata \<Rightarrow> BPlusTree result" where
  "bp_insert fuel st md =
     rbind (find_leaf fuel st (root_b st) (filename md))
       (\<lambda>leaf.
          let st1 = insert_into_leaf st leaf md
          in rbind (if order_b st1 \<le> length (keys (heap st1 leaf)) then split_leaf fuel st1 leaf
                    else Ok st1)
               (\<lambda>st2. Ok (update_tag_index (st2\<lparr>size_b := size_b st2 + 1\<rparr>) md)))"

definition bp_search_by_filename :: "nat \<Rightarrow> BPlusTree \<Rightarrow> string \<Rightarrow> FileMetadata option result" where
  "bp_search_by_filename fuel st name =
     rbind (find_leaf fuel st (root_b st) name)
       (\<lambda>leaf. Ok (find (\<lambda>m. filename m = name) (keys (heap st leaf))))"

definition bp_search_by_tag :: "BPlusTree \<Rightarrow> string \<Rightarrow> nat \<times> BPlusTree" where
  "bp_search_by_tag st tag = search_by_tag st tag"

text \<open>The two loops of \<^verbatim>\<open>list_files\<close>.\<close>

primrec leftmost_leaf :: "nat \<Rightarrow> BPlusTree \<Rightarrow> nat \<Rightarrow> nat result" where
  "leftmost_leaf 0 st node = OutOfFuel"
| "leftmost_leaf (Suc n) st node =
     (if is_leaf (heap st node) then Ok node
      else
        (case children (heap st node) of
           [] \<Rightarrow> Raise IndexError
         | c # _ \<Rightarrow> leftmost_leaf n st c))"

primrec leaf_chain :: "nat \<Rightarrow> BPlusTree \<Rightarrow> nat option \<Rightarrow> FileMetadata list result" where
  "leaf_chain 0 st node = OutOfFuel"
| "leaf_chain (Suc n) st node =
     (case node of
        None \<Rightarrow> Ok []
      | Some a \<Rightarrow> rbind (leaf_chain n st (next_leaf (heap st a))) (\<lambda>r. Ok (keys (heap st a) @ r)))"

definition bp_list_files :: "nat \<Rightarrow> BPlusTree \<Rightarrow> string \<Rightarrow> FileMetadata list result" where
  "bp_list_files fuel st ord =
     rbind (leftmost_leaf fuel st (root_b st))
       (\<lambda>node. rbind (leaf_chain fuel st (Some node))
          (\<lambda>result. Ok (if ord = ''desc'' then rev result else result)))"

definition bp_get_height :: "BPlusTree \<Rightarrow> nat" where
  "bp_get_height st = height_b st"

definition bp_get_size :: "BPlusTree \<Rightarrow> nat" where
  "bp_get_size st = size_b st"

definition bp_inserts :: "nat \<Rightarrow> BPlusTree \<Rightarrow> FileMetadata list \<Rightarrow> BPlusTree result" where
  "bp_inserts fuel st mds = result_fold (bp_insert fuel) st mds"

section \<open>Sample data\<close>

definition sample :: "string \<Rightarrow> string \<Rightarrow> string list \<Rightarrow> FileMetadata" where
  "sample name who ts =
     \<lparr>filename = name, owner = who, timestamp = 0, tags = ts, permissions = ''rw'',
      file_size = 1024, file_id = ''100000''\<rparr>"

text \<open>A stand-in for Python's string hash, and a table that holds one record.\<close>

definition len_hash :: "string \<Rightarrow> int" where
  "len_hash s = int (length s)"

definition table1 :: HashTableIndex where
  "table1 = \<lparr>tag_index = Map.empty, list_objs = (\<lambda>_. []), next_ref = 0,
      capacity = 4, load_factor = 3 / 4, size_h = 1,
      buckets = [[], [sample ''a.txt'' ''alice'' [''work'']], [], []]\<rparr>"

text \<open>
  A table of four buckets that holds three records, and a table as
  \<^verbatim>\<open>HashTableIndex(10, 0.3)\<close> leaves it after two inserts: the literal \<^verbatim>\<open>0.3\<close> is the
  double nearest to 3/10.
\<close>

definition table3 :: HashTableIndex where
  "table3 = \<lparr>tag_index = Map.empty, list_objs = (\<lambda>_. []), next_ref = 0,
      capacity = 4, load_factor = 3 / 4, size_h = 3,
      buckets = [[], [sample ''a.txt'' ''alice'' []], [sample ''bb.txt'' ''bob'' []],
                 [sample ''ccc.txt'' ''carol'' []]]\<rparr>"

definition table10 :: HashTableIndex where
  "table10 = \<lparr>tag_index = Map.empty, list_objs = (\<lambda>_. []), next_ref = 0,
      capacity = 10, load_factor = float_div 3 10, size_h = 2,
      buckets = [[], [], [], [], [], [sample ''a.txt'' ''alice'' []],
                 [sample ''bb.txt'' ''bob'' []], [], [], []]\<rparr>"

section \<open>Bounds that may be infinite\<close>

text \<open>An upper bound on filenames; \<open>None\<close> is no bound.\<close>

fun lt_bound :: "string \<Rightarrow> string option \<Rightarrow> bool" where
  "lt_bound x None = True"
| "lt_bound x (Some u) = (x < u)"

fun le_bound :: "string \<Rightarrow> string option \<Rightarrow> bool" where
  "le_bound x None = True"
| "le_bound x (Some u) = (x \<le> u)"

lemma lt_bound_trans: "x \<le> y \<Longrightarrow> lt_bound y U \<Longrightarrow> lt_bound x U"
  by (cases U) auto

lemma lt_le_bound_trans: "x < y \<Longrightarrow> le_bound y U \<Longrightarrow> lt_bound x U"
  by (cases U) auto

lemma lt_imp_le_bound: "lt_bound x U \<Longrightarrow> le_bound x U"
  by (cases U) auto

lemma le_bound_trans: "x \<le> y \<Longrightarrow> le_bound y U \<Longrightarrow> le_bound x U"
  by (cases U) auto

section \<open>Properties of the tag index\<close>

text \<open>
  A tag search is read-only when the dictionary and every field of the backend are as
  before, every list object that existed keeps its contents, the returned list holds the
  sequence stored for the tag, and overwriting the returned list object changes nothing
  the index holds.
\<close>

definition tag_search_read_only ::
  "('a tag_store_scheme \<Rightarrow> string \<Rightarrow> nat \<times> 'a tag_store_scheme) \<Rightarrow> 'a tag_store_scheme \<Rightarrow> string \<Rightarrow> bool" where
  "tag_search_read_only srch st tag \<longleftrightarrow>
     (let r = fst (srch st tag); st' = snd (srch st tag)
      in tag_index st' = tag_index st
         \<and> st' = st\<lparr>list_objs := list_objs st', next_ref := next_ref st'\<rparr>
         \<and> (\<forall>a < next_ref st. list_objs st' a = list_objs st a)
         \<and> (\<forall>u. tag_contents st' u = tag_contents st u)
         \<and> list_objs st' r = tag_contents st tag
         \<and> (\<forall>xs u. tag_contents (st'\<lparr>list_objs := (list_objs st')(r := xs)\<rparr>) u = tag_contents st u))"

lemma new_list_frame:
  "new_list st xs = (next_ref st, st\<lparr>list_objs := (list_objs st)(next_ref st := xs), next_ref := Suc (next_ref st)\<rparr>)"
  by (simp add: new_list_def)

lemma tag_append_eq:
  "tag_append st t md =
     (case tag_index st t of
        Some r \<Rightarrow> st\<lparr>list_objs := (list_objs st)(r := list_objs st r @ [md])\<rparr>
      | None \<Rightarrow> st\<lparr>tag_index := (tag_index st)(t \<mapsto> next_ref st),
                   list_objs := (list_objs st)(next_ref st := [md]),
                   next_ref := Suc (next_ref st)\<rparr>)"
  by (simp add: tag_append_def tag_getitem_def new_list_def list_append_def split: option.splits)

lemma tag_wf_init: "tag_index st = Map.empty \<Longrightarrow> tag_wf st"
  by (simp add: tag_wf_def)

lemma tag_append_wf: "tag_wf st \<Longrightarrow> tag_wf (tag_append st t md)"
  unfolding tag_wf_def tag_append_eq
  by (auto simp: inj_on_def ran_def dom_def split: option.splits if_splits intro: less_SucI)

lemma tag_append_contents:
  "tag_wf st \<Longrightarrow>
   tag_contents (tag_append st t md) u = (if u = t then tag_contents st t @ [md] else tag_contents st u)"
  unfolding tag_wf_def tag_append_eq tag_contents_def
  by (auto simp: inj_on_def ran_def dom_def split: option.splits if_splits)

lemma tag_append_frame:
  "\<exists>ti ls nr. tag_append st t md = st\<lparr>tag_index := ti, list_objs := ls, next_ref := nr\<rparr>"
  unfolding tag_append_eq
  apply (cases "tag_index st t")
   apply simp
   apply (rule exI[of _ "(tag_index st)(t \<mapsto> next_ref st)"])
  apply (rule exI, rule exI, rule refl)
  apply simp
  apply (rule exI[of _ "tag_index st"])
  apply (rule exI, rule exI[of _ "next_ref st"])
  apply simp
  done


lemma foldl_tag_append_wf: "tag_wf st \<Longrightarrow> tag_wf (foldl (\<lambda>s t. tag_append s t md) st ts)"
  by (induction ts arbitrary: st) (simp_all add: tag_append_wf)

lemma foldl_tag_append_contents:
  "tag_wf st \<Longrightarrow>
   tag_contents (foldl (\<lambda>s t. tag_append s t md) st ts) u
     = tag_contents st u @ replicate (count_list ts u) md"
proof (induction ts arbitrary: st)
  case Nil
  then show ?case by simp
next
  case (Cons t ts)
  from Cons.prems have "tag_wf (tag_append st t md)" by (rule tag_append_wf)
  from Cons.IH [OF this] Cons.prems show ?case
    by (simp add: tag_append_contents replicate_app_Cons_same)
qed

lemma foldl_tag_append_frame:
  "\<exists>ti ls nr. foldl (\<lambda>s t. tag_append s t md) st ts = st\<lparr>tag_index := ti, list_objs := ls, next_ref := nr\<rparr>"
proof (induction ts arbitrary: st)
  case Nil
  have "st = st\<lparr>tag_index := tag_index st, list_objs := list_objs st, next_ref := next_ref st\<rparr>" by simp
  then show ?case by (metis foldl_Nil)
next
  case (Cons t ts)
  obtain ti ls nr where 1: "tag_append st t md = st\<lparr>tag_index := ti, list_objs := ls, next_ref := nr\<rparr>"
    using tag_append_frame by blast
  obtain ti' ls' nr' where
    "foldl (\<lambda>s t. tag_append s t md) (tag_append st t md) ts
       = (tag_append st t md)\<lparr>tag_index := ti', list_objs := ls', next_ref := nr'\<rparr>"
    using Cons.IH by blast
  with 1 have "foldl (\<lambda>s t. tag_append s t md) st (t # ts)
      = st\<lparr>tag_index := ti', list_objs := ls', next_ref := nr'\<rparr>" by simp
  then show ?case by blast
qed

lemma search_by_tag_eq:
  "search_by_tag st tag =
     (Suc (next_ref st),
      st\<lparr>list_objs := (list_objs st)
             (next_ref st := [],
              Suc (next_ref st) :=
                (case tag_index st tag of
                   Some r \<Rightarrow> if r = next_ref st then [] else list_objs st r
                 | None \<Rightarrow> [])),
         next_ref := Suc (Suc (next_ref st))\<rparr>)"
  by (simp add: search_by_tag_def new_list_def split: option.splits)

lemma search_by_tag_read_only: "tag_wf st \<Longrightarrow> tag_search_read_only search_by_tag st tag"
  unfolding tag_search_read_only_def search_by_tag_eq tag_wf_def tag_contents_def Let_def
  by (auto simp: ran_def split: option.splits)

lemma update_tag_index_wf: "tag_wf st \<Longrightarrow> tag_wf (update_tag_index st md)"
  by (simp add: update_tag_index_def foldl_tag_append_wf)

lemma update_tag_index_contents:
  "tag_wf st \<Longrightarrow>
   tag_contents (update_tag_index st md) u = tag_contents st u @ replicate (count_list (tags md) u) md"
  by (simp add: update_tag_index_def foldl_tag_append_contents)

lemma update_tag_index_frame:
  "\<exists>ti ls nr. update_tag_index st md = st\<lparr>tag_index := ti, list_objs := ls, next_ref := nr\<rparr>"
  by (simp add: update_tag_index_def foldl_tag_append_frame)

section \<open>Rounding to a double\<close>

text \<open>
  \<open>normal q m e\<close>: significand \<open>m\<close> and exponent \<open>e\<close> are the ones at which a double
  nearest to \<open>q\<close> is sought.  Rounding is monotone, and anything below \<open>2 ^ - 1075\<close>
  rounds to zero.
\<close>

declare norm_up.simps [simp del] norm_down.simps [simp del]

definition normal :: "rat \<Rightarrow> rat \<Rightarrow> int \<Rightarrow> bool" where
  "normal q m e \<longleftrightarrow>
     q = m * 2 powi e \<and> 0 < m \<and> m < 2 ^ 53 \<and> - 1074 \<le> e \<and> (2 ^ 52 \<le> m \<or> e = - 1074)"

lemma two_powi_Suc: "(2::rat) powi (e + 1) = 2 * 2 powi e"
  by (simp add: power_int_add_1')

lemma two_powi_pred: "2 * (2::rat) powi (e - 1) = 2 powi e"
  using two_powi_Suc [of "e - 1"] by simp

lemma norm_up_spec:
  "0 < m \<Longrightarrow> norm_up m e = (m1, e1) \<Longrightarrow>
   m1 * 2 powi e1 = m * 2 powi e \<and> 0 < m1 \<and> m1 < 2 ^ 53 \<and> e \<le> e1 \<and> (2 ^ 52 \<le> m1 \<or> e1 = e)"
proof (induction m e rule: norm_up.induct)
  case (1 m e)
  show ?case
  proof (cases "2 ^ 53 \<le> m")
    case True
    then have "norm_up m e = norm_up (m / 2) (e + 1)" by (subst norm_up.simps) simp
    with "1.prems" have n: "norm_up (m / 2) (e + 1) = (m1, e1)" by simp
    have "0 < m / 2" using "1.prems" by simp
    from "1.IH" [OF True this n] have
      ih: "m1 * 2 powi e1 = m / 2 * 2 powi (e + 1)" "0 < m1" "m1 < 2 ^ 53" "e + 1 \<le> e1"
        "2 ^ 52 \<le> m1 \<or> e1 = e + 1" by simp_all
    have "2 ^ 52 \<le> m1 \<or> e1 = e"
    proof (cases "e1 = e + 1")
      case False
      with ih(5) show ?thesis by simp
    next
      case e: True
      with ih(1) have "m1 * 2 powi (e + 1) = m / 2 * 2 powi (e + 1)" by simp
      then have "m1 = m / 2" by simp
      with True show ?thesis by simp
    qed
    with ih show ?thesis by (simp add: two_powi_Suc)
  next
    case False
    then have "norm_up m e = (m, e)" by (subst norm_up.simps) simp
    with False "1.prems" show ?thesis by simp
  qed
qed

lemma norm_down_spec:
  "0 < m \<Longrightarrow> m < 2 ^ 53 \<Longrightarrow> - 1074 \<le> e \<Longrightarrow> norm_down m e = (m2, e2) \<Longrightarrow>
   m2 * 2 powi e2 = m * 2 powi e \<and> 0 < m2 \<and> m2 < 2 ^ 53 \<and> - 1074 \<le> e2
   \<and> (2 ^ 52 \<le> m2 \<or> e2 = - 1074)"
proof (induction m e rule: norm_down.induct)
  case (1 m e)
  show ?case
  proof (cases "m < 2 ^ 52 \<and> - 1074 < e")
    case True
    then have "norm_down m e = norm_down (2 * m) (e - 1)" by (subst norm_down.simps) simp
    with "1.prems" have n: "norm_down (2 * m) (e - 1) = (m2, e2)" by simp
    have "0 < 2 * m" "2 * m < 2 ^ 53" "- 1074 \<le> e - 1" using True "1.prems" by simp_all
    from "1.IH" [OF True this n] have
      "m2 * 2 powi e2 = 2 * m * 2 powi (e - 1)" "0 < m2" "m2 < 2 ^ 53" "- 1074 \<le> e2"
      "2 ^ 52 \<le> m2 \<or> e2 = - 1074" by simp_all
    then show ?thesis using two_powi_pred [of e] by (simp add: mult.assoc mult.left_commute)
  next
    case False
    then have "norm_down m e = (m, e)" by (subst norm_down.simps) auto
    with False "1.prems" show ?thesis by auto
  qed
qed

lemma round_pos_normal:
  assumes "0 < q"
  shows "\<exists>m e. normal q m e \<and> round_pos q = of_int (round_half_even m) * 2 powi e"
proof -
  obtain m1 e1 where u: "norm_up q 0 = (m1, e1)" by (cases "norm_up q 0") auto
  obtain m2 e2 where d: "norm_down m1 e1 = (m2, e2)" by (cases "norm_down m1 e1") auto
  from norm_up_spec [OF assms u] have
    1: "m1 * 2 powi e1 = q" "0 < m1" "m1 < 2 ^ 53" "0 \<le> e1" by simp_all
  then have "- 1074 \<le> e1" by simp
  from norm_down_spec [OF 1(2,3) this d] 1(1) have "normal q m2 e2" by (simp add: normal_def)
  moreover have "round_pos q = of_int (round_half_even m2) * 2 powi e2"
    by (simp add: round_pos_def u d)
  ultimately show ?thesis by blast
qed

lemma normal_exp_le:
  assumes "normal q m e" and "normal q' m' e'" and "q \<le> q'"
  shows "e \<le> e'"
proof (rule ccontr)
  assume "\<not> e \<le> e'"
  then have lt: "e' \<le> e - 1" by simp
  with assms(2) have "e \<noteq> - 1074" by (simp add: normal_def)
  with assms(1) have m: "2 ^ 52 \<le> m" and q: "q = m * 2 powi e" by (simp_all add: normal_def)
  have p: "(0::rat) < 2 powi e" by (simp add: zero_less_power_int)
  have "q' = m' * 2 powi e'" using assms(2) by (simp add: normal_def)
  also have "\<dots> < 2 ^ 53 * 2 powi e'"
    using assms(2) by (intro mult_strict_right_mono) (simp_all add: normal_def zero_less_power_int)
  also have "\<dots> \<le> 2 ^ 53 * 2 powi (e - 1)"
    using lt by (intro mult_left_mono power_int_increasing) simp_all
  also have "\<dots> = 2 ^ 52 * (2 * 2 powi (e - 1))" by simp
  also have "\<dots> = 2 ^ 52 * 2 powi e" by (simp only: two_powi_pred)
  also have "\<dots> \<le> m * 2 powi e" using m p by (intro mult_right_mono) simp_all
  finally show False using q assms(3) by simp
qed

lemma normal_unique:
  assumes "normal q m e" and "normal q m' e'"
  shows "e' = e \<and> m' = m"
proof -
  from normal_exp_le [OF assms(1,2)] normal_exp_le [OF assms(2,1)] have e: "e' = e" by simp
  from assms e have "m * 2 powi e = m' * 2 powi e" by (simp add: normal_def)
  then have "m = m'" by simp
  with e show ?thesis by simp
qed

lemma round_pos_eq:
  assumes "normal q m e"
  shows "round_pos q = of_int (round_half_even m) * 2 powi e"
proof -
  from assms have "0 < q" by (simp add: normal_def zero_less_power_int)
  from round_pos_normal [OF this] obtain m' e' where
    n: "normal q m' e'" "round_pos q = of_int (round_half_even m') * 2 powi e'" by blast
  from normal_unique [OF assms n(1)] n(2) show ?thesis by simp
qed

lemma round_half_even_of_int [simp]: "round_half_even (of_int k) = k"
  by (simp add: round_half_even_def)

lemma round_half_even_range:
  "\<lfloor>x\<rfloor> \<le> round_half_even x \<and> round_half_even x \<le> \<lfloor>x\<rfloor> + 1"
  by (simp add: round_half_even_def Let_def)

lemma round_half_even_mono:
  assumes "x \<le> y"
  shows "round_half_even x \<le> round_half_even y"
proof (cases "\<lfloor>x\<rfloor> = \<lfloor>y\<rfloor>")
  case True
  with assms show ?thesis by (auto simp: round_half_even_def Let_def)
next
  case False
  with assms have "\<lfloor>x\<rfloor> + 1 \<le> \<lfloor>y\<rfloor>" using floor_mono [OF assms] by simp
  with round_half_even_range [of x] round_half_even_range [of y] show ?thesis by simp
qed

lemma round_pos_mono:
  assumes "0 < q" and "q \<le> q'"
  shows "round_pos q \<le> round_pos q'"
proof -
  from assms have "0 < q'" by simp
  from round_pos_normal [OF assms(1)] obtain m e where
    n: "normal q m e" "round_pos q = of_int (round_half_even m) * 2 powi e" by blast
  from round_pos_normal [OF \<open>0 < q'\<close>] obtain m' e' where
    n': "normal q' m' e'" "round_pos q' = of_int (round_half_even m') * 2 powi e'" by blast
  from normal_exp_le [OF n(1) n'(1) assms(2)] have le: "e \<le> e'" .
  have p: "(0::rat) < 2 powi e" "(0::rat) < 2 powi e'" by (simp_all add: zero_less_power_int)
  show ?thesis
  proof (cases "e = e'")
    case True
    with n(1) n'(1) assms(2) have "m * 2 powi e \<le> m' * 2 powi e" by (simp add: normal_def)
    with p have "m \<le> m'" by simp
    then have "round_half_even m \<le> round_half_even m'" by (rule round_half_even_mono)
    then have "(of_int (round_half_even m) :: rat) \<le> of_int (round_half_even m')" by simp
    then have "(of_int (round_half_even m) :: rat) * 2 powi e \<le> of_int (round_half_even m') * 2 powi e"
      using p by (intro mult_right_mono) simp_all
    with True show ?thesis unfolding n(2) n'(2) by simp
  next
    case False
    with le have lt: "e \<le> e' - 1" by simp
    with n(1) have "e' \<noteq> - 1074" by (simp add: normal_def)
    with n'(1) have "(of_int (2 ^ 52) :: rat) \<le> m'" by (simp add: normal_def)
    then have "round_half_even (of_int (2 ^ 52)) \<le> round_half_even m'"
      by (rule round_half_even_mono)
    then have lo: "(2 ^ 52 :: rat) \<le> of_int (round_half_even m')"
      by (simp only: round_half_even_of_int) (metis of_int_le_iff of_int_numeral of_int_power)
    from n(1) have "m \<le> of_int (2 ^ 53)" by (simp add: normal_def)
    then have "round_half_even m \<le> round_half_even (of_int (2 ^ 53))"
      by (rule round_half_even_mono)
    then have hi: "(of_int (round_half_even m) :: rat) \<le> 2 ^ 53"
      by (simp only: round_half_even_of_int) (metis of_int_le_iff of_int_numeral of_int_power)
    have "(of_int (round_half_even m) :: rat) * 2 powi e \<le> 2 ^ 53 * 2 powi e"
      using hi p by (intro mult_right_mono) simp_all
    also have "\<dots> \<le> 2 ^ 53 * 2 powi (e' - 1)"
      using lt by (intro mult_left_mono power_int_increasing) simp_all
    also have "\<dots> = 2 ^ 52 * (2 * 2 powi (e' - 1))" by simp
    also have "\<dots> = 2 ^ 52 * 2 powi e'" by (simp only: two_powi_pred)
    also have "\<dots> \<le> of_int (round_half_even m') * 2 powi e'"
      using lo p by (intro mult_right_mono) simp_all
    finally show ?thesis unfolding n(2) n'(2) .
  qed
qed

lemma round_pos_nonneg:
  assumes "0 < q"
  shows "0 \<le> round_pos q"
proof -
  from round_pos_normal [OF assms] obtain m e where
    n: "normal q m e" "round_pos q = of_int (round_half_even m) * 2 powi e" by blast
  from n(1) have "0 \<le> \<lfloor>m\<rfloor>" by (simp add: normal_def)
  with round_half_even_range [of m] have "0 \<le> round_half_even m" by linarith
  then show ?thesis unfolding n(2) by (simp add: zero_less_power_int less_imp_le)
qed

lemma round_double_mono:
  assumes "0 \<le> q" and "q \<le> q'"
  shows "round_double q \<le> round_double q'"
proof (cases "q = 0")
  case True
  with assms round_pos_nonneg [of q'] show ?thesis by (auto simp: round_double_def)
next
  case False
  with assms round_pos_mono [of q q'] show ?thesis by (auto simp: round_double_def)
qed

lemma round_double_tiny:
  assumes "0 \<le> q" and "q < 2 powi (- 1075)"
  shows "round_double q = 0"
proof (cases "q = 0")
  case True
  then show ?thesis by (simp add: round_double_def)
next
  case False
  with assms have q: "0 < q" by simp
  from round_pos_normal [OF q] obtain m e where
    n: "normal q m e" "round_pos q = of_int (round_half_even m) * 2 powi e" by blast
  from n(1) have e: "- 1074 \<le> e" and qm: "q = m * 2 powi e" and m: "0 < m" by (simp_all add: normal_def)
  have "m * 2 powi (- 1074) \<le> m * 2 powi e"
    using e m by (intro mult_left_mono power_int_increasing) simp_all
  also have "\<dots> < 2 powi (- 1075)" using qm assms(2) by simp
  also have "\<dots> = (1 / 2) * 2 powi (- 1074)" using two_powi_Suc [of "- 1075"] by simp
  finally have "m < 1 / 2" by (simp add: zero_less_power_int)
  with m have "\<lfloor>m\<rfloor> = 0" by (simp add: floor_eq_iff)
  with \<open>m < 1 / 2\<close> have "round_half_even m = 0" by (simp add: round_half_even_def)
  with n(2) q show ?thesis by (simp add: round_double_def)
qed


lemma round_double_eqI:
  assumes "normal q m e" and "round_half_even m = r"
  shows "round_double q = of_int r * 2 powi e"
proof -
  from assms(1) have "0 < q" by (simp add: normal_def zero_less_power_int)
  with round_pos_eq [OF assms(1)] assms(2) show ?thesis by (simp add: round_double_def)
qed

lemma round_half_even_divide:
  assumes "0 < b"
  shows "round_half_even (of_int a / of_int b) =
     (if 2 * (a mod b) < b then a div b
      else if b < 2 * (a mod b) then a div b + 1
      else if even (a div b) then a div b else a div b + 1)"
proof -
  have f: "\<lfloor>(of_int a :: rat) / of_int b\<rfloor> = a div b" by (simp add: floor_divide_of_int_eq)
  have "(of_int a :: rat) = of_int (a div b * b + a mod b)" by (simp only: div_mult_mod_eq)
  also have "\<dots> = of_int (a div b) * of_int b + of_int (a mod b)" by (simp only: of_int_add of_int_mult)
  finally have "(of_int a :: rat) / of_int b = of_int (a div b) + of_int (a mod b) / of_int b"
    using assms by (simp add: field_simps)
  then have d: "(of_int a :: rat) / of_int b - of_int (a div b) = of_int (a mod b) / of_int b"
    by simp
  have 1: "((of_int (a mod b) :: rat) / of_int b < 1 / 2) = (2 * (a mod b) < b)"
  proof -
    have "((of_int (a mod b) :: rat) / of_int b < 1 / 2) = ((of_int (2 * (a mod b)) :: rat) < of_int b)"
      using assms by (simp add: field_simps)
    then show ?thesis by (simp only: of_int_less_iff)
  qed
  have 2: "(1 / 2 < (of_int (a mod b) :: rat) / of_int b) = (b < 2 * (a mod b))"
  proof -
    have "(1 / 2 < (of_int (a mod b) :: rat) / of_int b) = ((of_int b :: rat) < of_int (2 * (a mod b)))"
      using assms by (simp add: field_simps)
    then show ?thesis by (simp only: of_int_less_iff)
  qed
  show ?thesis unfolding round_half_even_def Let_def f d 1 2 ..
qed

lemma round_double_ratI:
  assumes "0 < b" and "0 < a" and "a < 2 ^ 53 * b" and "- 1074 \<le> e"
    and "2 ^ 52 * b \<le> a \<or> e = - 1074"
    and "q = of_int a / of_int b * 2 powi e"
    and "(if 2 * (a mod b) < b then a div b
          else if b < 2 * (a mod b) then a div b + 1
          else if even (a div b) then a div b else a div b + 1) = r"
  shows "round_double q = of_int r * 2 powi e"
proof (rule round_double_eqI)
  have b: "(0::rat) < of_int b" using assms(1) by simp
  have "(of_int a :: rat) < of_int (2 ^ 53 * b)" using assms(3) by (simp only: of_int_less_iff)
  then have 1: "(of_int a :: rat) / of_int b < 2 ^ 53" using b by (simp add: field_simps)
  have 2: "(2 ^ 52 :: rat) \<le> of_int a / of_int b" if "2 ^ 52 * b \<le> a"
  proof -
    from that have "(of_int (2 ^ 52 * b) :: rat) \<le> of_int a" by (simp only: of_int_le_iff)
    then show ?thesis using b by (simp add: field_simps)
  qed
  have 3: "(0::rat) < of_int a / of_int b" using assms(1,2) by simp
  show "normal q (of_int a / of_int b) e"
    unfolding normal_def using assms(4,5,6) 1 2 3 by blast
  show "round_half_even (of_int a / of_int b) = r"
    using assms(7) by (simp only: round_half_even_divide [OF assms(1)])
qed

section \<open>Properties of the hash table\<close>

declare ht_insert_no_lock.simps [simp del]

text \<open>The test of \<^verbatim>\<open>_insert_no_lock\<close> negated: \<open>n\<close> records do not overload \<open>c\<close> buckets.\<close>

definition fits :: "rat \<Rightarrow> nat \<Rightarrow> nat \<Rightarrow> bool" where
  "fits lf n c \<longleftrightarrow> \<not> lf < float_div n c"

lemma float_div_mono_size: "n \<le> n' \<Longrightarrow> float_div n c \<le> float_div n' c"
  unfolding float_div_def by (intro round_double_mono divide_right_mono) simp_all

lemma float_div_mono_cap: "0 < c \<Longrightarrow> c \<le> c' \<Longrightarrow> float_div n c' \<le> float_div n c"
  unfolding float_div_def by (intro round_double_mono divide_left_mono) simp_all

lemma fits_mono_size: "fits lf n c \<Longrightarrow> n' \<le> n \<Longrightarrow> fits lf n' c"
  using float_div_mono_size [of n' n c] by (simp add: fits_def)

lemma fits_mono_cap: "fits lf n c \<Longrightarrow> 0 < c \<Longrightarrow> c \<le> c' \<Longrightarrow> fits lf n c'"
  using float_div_mono_cap [of c c' n] by (simp add: fits_def)

lemma fits_zero: "0 \<le> lf \<Longrightarrow> fits lf 0 c"
  by (simp add: fits_def float_div_def round_double_def)

lemma fits_exact:
  assumes "round_double lf = lf" and "of_nat n / of_nat c \<le> lf"
  shows "fits lf n c"
proof -
  have "round_double (of_nat n / of_nat c) \<le> round_double lf"
    using assms(2) by (intro round_double_mono) simp_all
  with assms(1) show ?thesis by (simp add: fits_def float_div_def)
qed

lemma tiny_quotient:
  assumes "0 < c"
  shows "(of_nat n :: rat) / of_nat (2 ^ (n + k) * c) < 1 / 2 ^ k"
proof -
  have "(of_nat n :: rat) < 2 ^ n" by (rule of_nat_less_two_power)
  also have "\<dots> \<le> 2 ^ n * of_nat c" using assms by simp
  finally have "(of_nat n :: rat) < 2 ^ n * of_nat c" .
  then have "(of_nat n :: rat) * 2 ^ k < 2 ^ n * of_nat c * 2 ^ k"
    by (intro mult_strict_right_mono) simp_all
  then show ?thesis using assms by (simp add: field_simps power_add)
qed

lemma two_powi_neg: "(2::rat) powi (- int k) = 1 / 2 ^ k"
  by (simp add: power_int_minus inverse_eq_divide)

lemma ex_fits:
  assumes "0 < lf" and "0 < c"
  shows "\<exists>d. fits lf n (2 ^ d * c)"
proof -
  let ?q = "(of_nat n :: rat) / of_nat (2 ^ (n + 1075) * c)"
  have "?q < 1 / 2 ^ 1075" using assms(2) by (rule tiny_quotient)
  moreover have "(2::rat) powi (- 1075) = 1 / 2 ^ 1075"
    using two_powi_neg [of 1075] by (simp only: of_nat_numeral)
  ultimately have "?q < 2 powi (- 1075)" by (simp only:)
  moreover have "0 \<le> ?q" by (intro divide_nonneg_nonneg of_nat_0_le_iff)
  ultimately have "round_double ?q = 0" by (intro round_double_tiny)
  then have "fits lf n (2 ^ (n + 1075) * c)"
    using assms(1) unfolding fits_def float_div_def by (simp only: not_less less_imp_le)
  then show ?thesis by blast
qed


definition ht_inv :: "(string \<Rightarrow> int) \<Rightarrow> HashTableIndex \<Rightarrow> bool" where
  "ht_inv hf st \<longleftrightarrow>
     0 < capacity st \<and> length (buckets st) = capacity st
     \<and> (\<forall>i < length (buckets st). \<forall>m \<in> set (buckets st ! i).
           nat (hf (filename m) mod int (capacity st)) = i)
     \<and> distinct (map filename (concat (buckets st)))
     \<and> size_h st = length (concat (buckets st))"

lemma bucket_replace_None: "bucket_replace b md = None \<longleftrightarrow> filename md \<notin> filename ` set b"
  by (induction b) auto

lemma bucket_replace_Some:
  "bucket_replace b md = Some b' \<Longrightarrow>
   \<exists>i < length b. b' = b[i := md] \<and> filename (b ! i) = filename md
      \<and> (\<forall>j < i. filename (b ! j) \<noteq> filename md)"
proof (induction b arbitrary: b')
  case Nil
  then show ?case by simp
next
  case (Cons a b)
  show ?case
  proof (cases "filename a = filename md")
    case True
    with Cons.prems show ?thesis by (intro exI[of _ 0]) auto
  next
    case False
    with Cons.prems obtain b0 where b0: "bucket_replace b md = Some b0" "b' = a # b0" by auto
    from Cons.IH [OF b0(1)] obtain i where
      i: "i < length b" "b0 = b[i := md]" "filename (b ! i) = filename md"
         "\<forall>j < i. filename (b ! j) \<noteq> filename md" by blast
    show ?thesis
      using i b0 False by (intro exI[of _ "Suc i"]) (auto simp: nth_Cons split: nat.splits)
  qed
qed

lemma result_fold_append:
  "result_fold f s (xs @ ys) =
     (case result_fold f s xs of Ok s' \<Rightarrow> result_fold f s' ys | Raise e \<Rightarrow> Raise e | OutOfFuel \<Rightarrow> OutOfFuel)"
  by (induction xs arbitrary: s) (auto split: result.splits)

lemma result_fold_concat:
  "result_fold (\<lambda>s b. result_fold f s b) s bs = result_fold f s (concat bs)"
  by (induction bs arbitrary: s) (auto simp: result_fold_append split: result.splits)

lemma mset_concat_update:
  "i < length xs \<Longrightarrow> mset (concat (xs[i := y])) + mset (xs ! i) = mset (concat xs) + mset y"
  by (induction xs arbitrary: i) (auto simp: nth_Cons split: nat.splits)

lemma distinct_map_mset:
  "mset xs = mset ys \<Longrightarrow> distinct (map f xs) = distinct (map f ys)"
  by (metis mset_eq_imp_distinct_iff mset_map)


lemma filter_key_distinct:
  "distinct (map f ys) \<Longrightarrow> k \<in> set ys \<Longrightarrow> filter (\<lambda>x. f k = f x) ys = [k]"
proof (induction ys)
  case Nil
  then show ?case by simp
next
  case (Cons a ys)
  show ?case
  proof (cases "k = a")
    case True
    with Cons.prems have "\<forall>x \<in> set ys. f k \<noteq> f x" by auto
    then have "filter (\<lambda>x. f k = f x) ys = []" by (simp add: filter_empty_conv)
    with True show ?thesis by simp
  next
    case False
    with Cons.prems have ky: "k \<in> set ys" by simp
    from Cons.prems have "f a \<notin> f ` set ys" by simp
    with ky have "f k \<noteq> f a" by (metis imageI)
    note ky this
    with Cons show ?thesis by simp
  qed
qed

lemma sort_key_rev_distinct:
  assumes d: "distinct (map f xs)"
  shows "sort_key f (rev xs) = sort_key f xs"
proof (rule properties_for_sort_key)
  show "mset (sort_key f xs) = mset (rev xs)" by simp
  show "sorted (map f (sort_key f xs))" by simp
  fix k assume "k \<in> set (sort_key f xs)"
  then have k: "k \<in> set xs" by simp
  have "distinct (map f (sort_key f xs))" using d by (simp add: distinct_map)
  then have 1: "filter (\<lambda>x. f k = f x) (sort_key f xs) = [k]"
    using k by (intro filter_key_distinct) simp_all
  have "distinct (map f (rev xs))" using d by (simp add: distinct_map)
  then have 2: "filter (\<lambda>x. f k = f x) (rev xs) = [k]"
    using k by (intro filter_key_distinct) simp_all
  show "filter (\<lambda>x. f k = f x) (sort_key f xs) = filter (\<lambda>x. f k = f x) (rev xs)"
    by (simp only: 1 2)
qed

lemma hash_idx_lt: "0 < c \<Longrightarrow> nat (h mod int c) < c"
  by (simp add: nat_less_iff)

lemma ht_inv_bucket_of:
  assumes "ht_inv hf st" and "m \<in> set (concat (buckets st))"
  shows "m \<in> set (buckets st ! nat (hf (filename m) mod int (capacity st)))"
proof -
  from assms(2) obtain b where "b \<in> set (buckets st)" "m \<in> set b" by auto
  then obtain i where i: "i < length (buckets st)" "m \<in> set (buckets st ! i)"
    by (auto simp: in_set_conv_nth)
  with assms(1) have "nat (hf (filename m) mod int (capacity st)) = i" by (simp add: ht_inv_def)
  with i show ?thesis by simp
qed

lemma ht_inv_new_filename:
  assumes "ht_inv hf st"
    and "filename md \<notin> filename ` set (buckets st ! nat (hf (filename md) mod int (capacity st)))"
  shows "filename md \<notin> filename ` set (concat (buckets st))"
proof
  assume "filename md \<in> filename ` set (concat (buckets st))"
  then obtain m where m: "m \<in> set (concat (buckets st))" "filename m = filename md"
    by (metis imageE)
  from ht_inv_bucket_of [OF assms(1) m(1)] m(2) assms(2) show False by (metis imageI)
qed

lemma ht_inv_empty:
  "0 < c \<Longrightarrow> ht_inv hf (st\<lparr>capacity := c, buckets := replicate c [], size_h := 0\<rparr>)"
  by (simp add: ht_inv_def)

lemma concat_replicate_Nil [simp]: "concat (replicate n []) = []"
  by (induction n) auto

lemma ht_inv_append:
  assumes inv: "ht_inv hf st"
    and new: "filename md \<notin> filename ` set (concat (buckets st))"
    and idx: "idx = nat (hf (filename md) mod int (capacity st))"
  shows "ht_inv hf (st\<lparr>buckets := (buckets st)[idx := buckets st ! idx @ [md]], size_h := size_h st + 1\<rparr>)"
    and "mset (concat ((buckets st)[idx := buckets st ! idx @ [md]])) = mset (concat (buckets st)) + {#md#}"
proof -
  let ?bs = "(buckets st)[idx := buckets st ! idx @ [md]]"
  from inv have c: "0 < capacity st" "length (buckets st) = capacity st" by (simp_all add: ht_inv_def)
  then have lt: "idx < length (buckets st)" using idx by (simp add: hash_idx_lt)
  from mset_concat_update [OF lt, of "buckets st ! idx @ [md]"]
  show m: "mset (concat ?bs) = mset (concat (buckets st)) + {#md#}" by simp
  then have "mset (concat ?bs) = mset (concat (buckets st) @ [md])" by simp
  then have "distinct (map filename (concat ?bs)) = distinct (map filename (concat (buckets st) @ [md]))"
    by (rule distinct_map_mset)
  moreover have "distinct (map filename (concat (buckets st) @ [md]))"
    using inv new by (auto simp: ht_inv_def)
  ultimately have d: "distinct (map filename (concat ?bs))" by simp
  have len: "length (concat ?bs) = Suc (length (concat (buckets st)))"
    using m by (metis size_mset size_add_mset add_mset_add_single)
  have pos: "\<forall>i < length ?bs. \<forall>m \<in> set (?bs ! i). nat (hf (filename m) mod int (capacity st)) = i"
    using inv idx lt by (auto simp: ht_inv_def nth_list_update)
  show "ht_inv hf (st\<lparr>buckets := ?bs, size_h := size_h st + 1\<rparr>)"
    using inv c d len pos by (simp add: ht_inv_def)
qed

lemma map_concat_update_same:
  assumes "i < length bs" and "map f b = map f (bs ! i)"
  shows "map f (concat (bs[i := b])) = map f (concat bs)"
proof -
  have "map (map f) (bs[i := b]) = (map (map f) bs)[i := map (map f) bs ! i]"
    using assms by (simp add: map_update)
  then have "map (map f) (bs[i := b]) = map (map f) bs" by (simp only: list_update_id)
  then show ?thesis by (simp add: map_concat)
qed

lemma bucket_replace_map_filename:
  "bucket_replace b md = Some b' \<Longrightarrow> map filename b' = map filename b"
  by (induction b arbitrary: b') (auto split: if_splits)

lemma bucket_replace_set:
  "bucket_replace b md = Some b' \<Longrightarrow> set b' \<subseteq> insert md (set b) \<and> md \<in> set b'"
  by (induction b arbitrary: b') (auto split: if_splits)

lemma ht_inv_replace:
  assumes inv: "ht_inv hf st"
    and idx: "idx = nat (hf (filename md) mod int (capacity st))"
    and rep: "bucket_replace (buckets st ! idx) md = Some b"
  shows "ht_inv hf (st\<lparr>buckets := (buckets st)[idx := b]\<rparr>)"
    and "map filename (concat ((buckets st)[idx := b])) = map filename (concat (buckets st))"
proof -
  let ?bs = "(buckets st)[idx := b]"
  from inv have c: "0 < capacity st" "length (buckets st) = capacity st" by (simp_all add: ht_inv_def)
  then have lt: "idx < length (buckets st)" using idx by (simp add: hash_idx_lt)
  show m: "map filename (concat ?bs) = map filename (concat (buckets st))"
    using lt bucket_replace_map_filename [OF rep] by (rule map_concat_update_same)
  then have len: "length (concat ?bs) = length (concat (buckets st))" by (metis length_map)
  have pos: "\<forall>i < length ?bs. \<forall>m \<in> set (?bs ! i). nat (hf (filename m) mod int (capacity st)) = i"
    using inv idx lt bucket_replace_set [OF rep] by (auto simp: ht_inv_def nth_list_update)
  show "ht_inv hf (st\<lparr>buckets := ?bs\<rparr>)"
    using inv c m len pos by (simp add: ht_inv_def)
qed

text \<open>Fields that no table operation touches.\<close>

definition ht_frame :: "HashTableIndex \<Rightarrow> HashTableIndex \<Rightarrow> bool" where
  "ht_frame st st' \<longleftrightarrow>
     tag_index st' = tag_index st \<and> list_objs st' = list_objs st \<and> next_ref st' = next_ref st
     \<and> load_factor st' = load_factor st"

definition ht_grown :: "HashTableIndex \<Rightarrow> HashTableIndex \<Rightarrow> bool" where
  "ht_grown st st' \<longleftrightarrow>
     (\<exists>k. capacity st' = 2 ^ k * capacity st
        \<and> (k = 0 \<or> \<not> fits (load_factor st) (size_h st') (capacity st' div 2)))"

definition rehash_ok :: "(string \<Rightarrow> int) \<Rightarrow> rat \<Rightarrow> nat \<Rightarrow> bool" where
  "rehash_ok hf lf d \<longleftrightarrow>
     (\<forall>s xs. ht_inv hf s \<longrightarrow> load_factor s = lf \<longrightarrow> distinct (map filename xs)
        \<longrightarrow> filename ` set xs \<inter> filename ` set (concat (buckets s)) = {}
        \<longrightarrow> fits lf (size_h s + length xs) (2 ^ d * capacity s)
        \<longrightarrow> (\<exists>s'. result_fold (ht_insert_no_lock hf (Suc d)) s xs = Ok s'
              \<and> ht_inv hf s' \<and> ht_frame s s'
              \<and> mset (concat (buckets s')) = mset (concat (buckets s)) + mset xs
              \<and> ht_grown s s'
              \<and> (fits lf (size_h s) (capacity s) \<longrightarrow> fits lf (size_h s') (capacity s'))))"

definition insert_new_ok :: "(string \<Rightarrow> int) \<Rightarrow> rat \<Rightarrow> nat \<Rightarrow> bool" where
  "insert_new_ok hf lf d \<longleftrightarrow>
     (\<forall>s md. ht_inv hf s \<longrightarrow> load_factor s = lf
        \<longrightarrow> filename md \<notin> filename ` set (concat (buckets s))
        \<longrightarrow> fits lf (size_h s + 1) (2 ^ d * capacity s)
        \<longrightarrow> (\<exists>s'. ht_insert_no_lock hf (Suc d) s md = Ok s'
              \<and> ht_inv hf s' \<and> ht_frame s s'
              \<and> mset (concat (buckets s')) = mset (concat (buckets s)) + {#md#}
              \<and> ht_grown s s'
              \<and> fits lf (size_h s') (capacity s')
              \<and> (capacity s' = capacity s \<longleftrightarrow> fits lf (size_h s + 1) (capacity s))))"

lemma ht_inv_size: "ht_inv hf s \<Longrightarrow> size_h s = size (mset (concat (buckets s)))"
  by (simp add: ht_inv_def)

lemma ht_grown_refl: "ht_grown s s"
  unfolding ht_grown_def by (intro exI[of _ 0]) simp

lemma ht_grown_trans:
  assumes "ht_grown s s1" and "ht_grown s1 s2" and "size_h s1 \<le> size_h s2"
    and "load_factor s1 = load_factor s"
  shows "ht_grown s s2"
proof -
  from assms(1) obtain k1 where k1: "capacity s1 = 2 ^ k1 * capacity s"
    "k1 = 0 \<or> \<not> fits (load_factor s) (size_h s1) (capacity s1 div 2)"
    unfolding ht_grown_def by blast
  from assms(2) obtain k2 where k2': "capacity s2 = 2 ^ k2 * capacity s1"
    "k2 = 0 \<or> \<not> fits (load_factor s1) (size_h s2) (capacity s2 div 2)"
    unfolding ht_grown_def by blast
  from k2' assms(4) have k2: "capacity s2 = 2 ^ k2 * capacity s1"
    "k2 = 0 \<or> \<not> fits (load_factor s) (size_h s2) (capacity s2 div 2)" by simp_all
  have c: "capacity s2 = 2 ^ (k2 + k1) * capacity s" using k1 k2 by (simp add: power_add)
  have "k2 + k1 = 0 \<or> \<not> fits (load_factor s) (size_h s2) (capacity s2 div 2)"
  proof (cases "k2 = 0")
    case False
    with k2 show ?thesis by simp
  next
    case True
    show ?thesis
    proof (cases "k1 = 0")
      case True
      with \<open>k2 = 0\<close> show ?thesis by simp
    next
      case False
      with k1 have "\<not> fits (load_factor s) (size_h s1) (capacity s1 div 2)" by simp
      then have "\<not> fits (load_factor s) (size_h s2) (capacity s1 div 2)"
        using assms(3) fits_mono_size by blast
      with True k2 show ?thesis by simp
    qed
  qed
  with c show ?thesis unfolding ht_grown_def by blast
qed

lemma rehash_from_insert:
  assumes ins: "insert_new_ok hf lf d" and lf: "0 < lf"
  shows "rehash_ok hf lf d"
  unfolding rehash_ok_def
proof (intro allI impI)
  fix s :: HashTableIndex and xs :: "FileMetadata list"
  assume "ht_inv hf s" "load_factor s = lf" "distinct (map filename xs)"
    "filename ` set xs \<inter> filename ` set (concat (buckets s)) = {}"
    "fits lf (size_h s + length xs) (2 ^ d * capacity s)"
  then show "\<exists>s'. result_fold (ht_insert_no_lock hf (Suc d)) s xs = Ok s'
              \<and> ht_inv hf s' \<and> ht_frame s s'
              \<and> mset (concat (buckets s')) = mset (concat (buckets s)) + mset xs
              \<and> ht_grown s s'
              \<and> (fits lf (size_h s) (capacity s) \<longrightarrow> fits lf (size_h s') (capacity s'))"
  proof (induction xs arbitrary: s)
    case Nil
    then show ?case by (simp add: ht_frame_def ht_grown_refl)
  next
    case (Cons x xs)
    have new: "filename x \<notin> filename ` set (concat (buckets s))" using Cons.prems(4) by auto
    have b1: "fits lf (size_h s + 1) (2 ^ d * capacity s)"
      using Cons.prems(5) by (rule fits_mono_size) simp
    from ins Cons.prems(1,2) new b1 obtain s1 where
      s1: "ht_insert_no_lock hf (Suc d) s x = Ok s1" "ht_inv hf s1" "ht_frame s s1"
      "mset (concat (buckets s1)) = mset (concat (buckets s)) + {#x#}" "ht_grown s s1"
      "fits lf (size_h s1) (capacity s1)"
      unfolding insert_new_ok_def by blast
    have sz1: "size_h s1 = size_h s + 1"
      using ht_inv_size [OF s1(2)] ht_inv_size [OF Cons.prems(1)] s1(4) by simp
    have lf1: "load_factor s1 = lf" using s1(3) Cons.prems(2) by (simp add: ht_frame_def)
    have d1: "distinct (map filename xs)" using Cons.prems(3) by simp
    have "set (concat (buckets s1)) = set (concat (buckets s)) \<union> {x}"
      using s1(4) by (metis set_mset_mset set_mset_union set_mset_add_mset_insert set_mset_empty Un_insert_right sup_bot.right_neutral)
    then have dj1: "filename ` set xs \<inter> filename ` set (concat (buckets s1)) = {}"
      using Cons.prems(3,4) by auto
    from s1(5) obtain k where k: "capacity s1 = 2 ^ k * capacity s" unfolding ht_grown_def by blast
    have "capacity s \<le> capacity s1" using k by simp
    then have le: "2 ^ d * capacity s \<le> 2 ^ d * capacity s1" by simp
    have pos: "0 < 2 ^ d * capacity s" using Cons.prems(1) by (simp add: ht_inv_def)
    have "fits lf (size_h s + length (x # xs)) (2 ^ d * capacity s1)"
      using Cons.prems(5) pos le by (rule fits_mono_cap)
    with sz1 have b2: "fits lf (size_h s1 + length xs) (2 ^ d * capacity s1)" by simp
    from Cons.IH [OF s1(2) lf1 d1 dj1 b2] obtain s2 where
      s2: "result_fold (ht_insert_no_lock hf (Suc d)) s1 xs = Ok s2" "ht_inv hf s2" "ht_frame s1 s2"
      "mset (concat (buckets s2)) = mset (concat (buckets s1)) + mset xs" "ht_grown s1 s2"
      "fits lf (size_h s2) (capacity s2)"
      using s1(6) by blast
    have sz2: "size_h s1 \<le> size_h s2"
      using ht_inv_size [OF s1(2)] ht_inv_size [OF s2(2)] s2(4) by simp
    have "ht_grown s s2"
      using s1(5) s2(5) sz2 lf1 Cons.prems(2) by (intro ht_grown_trans [of s s1 s2]) simp_all
    moreover have "ht_frame s s2" using s1(3) s2(3) by (simp add: ht_frame_def)
    moreover have "result_fold (ht_insert_no_lock hf (Suc d)) s (x # xs) = Ok s2"
      using s1(1) s2(1) by simp
    ultimately show ?case using s2(2,4,6) s1(4) by (intro exI[of _ s2]) simp
  qed
qed

lemma ht_insert_no_lock_new:
  assumes inv: "ht_inv hf s" and new: "filename md \<notin> filename ` set (concat (buckets s))"
  shows "ht_insert_no_lock hf (Suc n) s md =
     (let idx = nat (hf (filename md) mod int (capacity s));
          s2 = s\<lparr>buckets := (buckets s)[idx := buckets s ! idx @ [md]], size_h := size_h s + 1\<rparr>
      in if load_factor s < float_div (size_h s + 1) (capacity s)
         then result_fold (ht_insert_no_lock hf n)
                (s2\<lparr>capacity := capacity s * 2, buckets := replicate (capacity s * 2) [], size_h := 0\<rparr>)
                (concat (buckets s2))
         else Ok s2)"
proof -
  let ?idx = "nat (hf (filename md) mod int (capacity s))"
  from inv have c: "0 < capacity s" "length (buckets s) = capacity s" by (simp_all add: ht_inv_def)
  then have lt: "?idx < length (buckets s)" by (simp add: hash_idx_lt)
  have "set (buckets s ! ?idx) \<subseteq> set (concat (buckets s))"
    using lt by (auto intro: nth_mem)
  then have "filename md \<notin> filename ` set (buckets s ! ?idx)"
    using new by blast
  then have none: "bucket_replace (buckets s ! ?idx) md = None" by (simp add: bucket_replace_None)
  show ?thesis
    using c lt none
    by (simp add: ht_insert_no_lock.simps ht_hash_def ht_resize_with_def Let_def result_fold_concat)
qed

lemma insert_new_from_rehash:
  assumes lf: "0 < lf" and IH: "\<And>d'. d = Suc d' \<Longrightarrow> rehash_ok hf lf d'"
  shows "insert_new_ok hf lf d"
  unfolding insert_new_ok_def
proof (intro allI impI)
  fix s :: HashTableIndex and md :: FileMetadata
  assume inv: "ht_inv hf s" and lfs: "load_factor s = lf"
    and new: "filename md \<notin> filename ` set (concat (buckets s))"
    and bound: "fits lf (size_h s + 1) (2 ^ d * capacity s)"
  define idx where "idx = nat (hf (filename md) mod int (capacity s))"
  define s2 where "s2 = s\<lparr>buckets := (buckets s)[idx := buckets s ! idx @ [md]], size_h := size_h s + 1\<rparr>"
  from inv have c: "0 < capacity s" by (simp add: ht_inv_def)
  have inv2: "ht_inv hf s2" and m2: "mset (concat (buckets s2)) = mset (concat (buckets s)) + {#md#}"
    using ht_inv_append [OF inv new idx_def] by (simp_all add: s2_def)
  have sz2: "size_h s2 = size_h s + 1" by (simp add: s2_def)
  have fr2: "ht_frame s s2" by (simp add: ht_frame_def s2_def)
  have c2: "capacity s2 = capacity s" by (simp add: s2_def)
  show "\<exists>s'. ht_insert_no_lock hf (Suc d) s md = Ok s'
              \<and> ht_inv hf s' \<and> ht_frame s s'
              \<and> mset (concat (buckets s')) = mset (concat (buckets s)) + {#md#}
              \<and> ht_grown s s'
              \<and> fits lf (size_h s') (capacity s')
              \<and> (capacity s' = capacity s \<longleftrightarrow> fits lf (size_h s + 1) (capacity s))"
  proof (cases "lf < float_div (size_h s + 1) (capacity s)")
    case False
    then have "ht_insert_no_lock hf (Suc d) s md = Ok s2"
      using lfs by (simp add: ht_insert_no_lock_new [OF inv new] Let_def s2_def idx_def)
    moreover have "ht_grown s s2"
      unfolding ht_grown_def using c2 by (intro exI[of _ 0]) simp
    moreover have "fits lf (size_h s + 1) (capacity s)" using False by (simp add: fits_def)
    ultimately show ?thesis using inv2 fr2 m2 sz2 c2 by (intro exI[of _ s2]) simp
  next
    case True
    then have nf: "\<not> fits lf (size_h s + 1) (capacity s)" by (simp add: fits_def)
    have "d \<noteq> 0"
    proof
      assume "d = 0"
      with bound have "fits lf (size_h s + 1) (capacity s)" by simp
      with nf show False by simp
    qed
    then obtain d' where d: "d = Suc d'" by (cases d) auto
    define s3 where "s3 = s2\<lparr>capacity := capacity s * 2, buckets := replicate (capacity s * 2) [], size_h := 0\<rparr>"
    have run: "ht_insert_no_lock hf (Suc d) s md = result_fold (ht_insert_no_lock hf (Suc d')) s3 (concat (buckets s2))"
      using True lfs d by (simp add: ht_insert_no_lock_new [OF inv new] Let_def s2_def idx_def s3_def)
    have inv3: "ht_inv hf s3" unfolding s3_def using c by (intro ht_inv_empty) simp
    have lf3: "load_factor s3 = lf" using lfs by (simp add: s3_def s2_def)
    have d3: "distinct (map filename (concat (buckets s2)))" using inv2 by (simp add: ht_inv_def)
    have dj3: "filename ` set (concat (buckets s2)) \<inter> filename ` set (concat (buckets s3)) = {}"
      by (simp add: s3_def)
    have len2: "length (concat (buckets s2)) = size_h s + 1" using inv2 sz2 by (simp add: ht_inv_def)
    have "2 ^ d * capacity s = 2 ^ d' * capacity s3"
      by (simp add: d s3_def)
    with bound len2 have b3: "fits lf (size_h s3 + length (concat (buckets s2))) (2 ^ d' * capacity s3)"
      by (simp add: s3_def)
    have z3: "fits lf (size_h s3) (capacity s3)" using lf by (simp add: s3_def fits_zero)
    from IH [OF d] inv3 lf3 d3 dj3 b3 z3 obtain s' where
      s': "result_fold (ht_insert_no_lock hf (Suc d')) s3 (concat (buckets s2)) = Ok s'"
      "ht_inv hf s'" "ht_frame s3 s'"
      "mset (concat (buckets s')) = mset (concat (buckets s3)) + mset (concat (buckets s2))"
      "ht_grown s3 s'" "fits lf (size_h s') (capacity s')"
      unfolding rehash_ok_def by blast
    have m': "mset (concat (buckets s')) = mset (concat (buckets s)) + {#md#}"
      using s'(4) m2 by (simp add: s3_def)
    have sz': "size_h s' = size_h s + 1"
      using ht_inv_size [OF s'(2)] ht_inv_size [OF inv] m' by simp
    have fr': "ht_frame s s'" using s'(3) by (simp add: ht_frame_def s3_def s2_def)
    from s'(5) obtain k where k: "capacity s' = 2 ^ k * capacity s3"
      "k = 0 \<or> \<not> fits (load_factor s3) (size_h s') (capacity s' div 2)"
      unfolding ht_grown_def by blast
    have cap': "capacity s' = 2 ^ Suc k * capacity s" using k(1) by (simp add: s3_def)
    have "\<not> fits (load_factor s) (size_h s') (capacity s' div 2)"
    proof (cases "k = 0")
      case False
      with k(2) lf3 lfs show ?thesis by simp
    next
      case k0: True
      then have "capacity s' div 2 = capacity s" using cap' by simp
      with nf sz' lfs show ?thesis by simp
    qed
    with cap' have gr: "ht_grown s s'" unfolding ht_grown_def by blast
    have "(1::nat) < 2 ^ Suc k" by (rule one_less_power) simp_all
    then have "1 * capacity s < 2 ^ Suc k * capacity s"
      using c by (intro mult_strict_right_mono)
    then have "capacity s < capacity s'" using cap' by simp
    then have ne: "capacity s' \<noteq> capacity s" by simp
    show ?thesis
      using run s'(1,2,6) fr' m' gr ne nf by (intro exI[of _ s']) simp
  qed
qed

lemma insert_rehash_ok: "0 < lf \<Longrightarrow> insert_new_ok hf lf d \<and> rehash_ok hf lf d"
proof (induction d)
  case 0
  then have "insert_new_ok hf lf 0" by (intro insert_new_from_rehash) simp_all
  with 0 show ?case by (simp add: rehash_from_insert)
next
  case (Suc d)
  then have "insert_new_ok hf lf (Suc d)" by (intro insert_new_from_rehash) simp_all
  with Suc show ?case by (simp add: rehash_from_insert)
qed

lemma result_fold_mono:
  assumes fg: "\<And>s x s'. f s x = Ok s' \<Longrightarrow> g s x = Ok s'"
  shows "result_fold f s xs = Ok s' \<Longrightarrow> result_fold g s xs = Ok s'"
proof (induction xs arbitrary: s)
  case Nil
  then show ?case by simp
next
  case (Cons x xs)
  from Cons.prems obtain s1 where s1: "f s x = Ok s1" "result_fold f s1 xs = Ok s'"
    by (cases "f s x") simp_all
  from fg [OF s1(1)] Cons.IH [OF s1(2)] show ?case by simp
qed

lemma ht_insert_no_lock_mono:
  "ht_insert_no_lock hf n st md = Ok st' \<Longrightarrow> n \<le> m \<Longrightarrow> ht_insert_no_lock hf m st md = Ok st'"
proof (induction n arbitrary: m st md st')
  case 0
  then show ?case by (simp add: ht_insert_no_lock.simps)
next
  case (Suc n)
  from Suc.prems(2) obtain m' where m: "m = Suc m'" "n \<le> m'" by (cases m) auto
  have *: "result_fold (ht_insert_no_lock hf n) s xs = Ok s' \<Longrightarrow>
           result_fold (ht_insert_no_lock hf m') s xs = Ok s'" for s xs s'
    by (rule result_fold_mono [of "ht_insert_no_lock hf n"]) (rule Suc.IH [OF _ m(2)])
  have **: "ht_resize_with (ht_insert_no_lock hf n) s = Ok s' \<Longrightarrow>
           ht_resize_with (ht_insert_no_lock hf m') s = Ok s'" for s s'
    unfolding ht_resize_with_def Let_def result_fold_concat by (rule *)
  show ?case
  proof (cases "ht_hash hf st (filename md)")
    case (Ok index)
    show ?thesis
    proof (cases "length (buckets st) \<le> index")
      case True
      with Ok Suc.prems(1) show ?thesis by (simp add: ht_insert_no_lock.simps)
    next
      case False
      show ?thesis
      proof (cases "bucket_replace (buckets st ! index) md")
        case (Some b)
        with Ok False Suc.prems(1) show ?thesis by (simp add: ht_insert_no_lock.simps m(1))
      next
        case None
        define st2 where "st2 = st\<lparr>buckets := (buckets st)[index := buckets st ! index @ [md]],
          size_h := size_h st + 1\<rparr>"
        have e: "ht_insert_no_lock hf (Suc k) st md =
            (if float_div (size_h st2) (capacity st2) > load_factor st2
             then ht_resize_with (ht_insert_no_lock hf k) st2 else Ok st2)" for k
          using Ok False None by (simp add: ht_insert_no_lock.simps st2_def Let_def)
        show ?thesis
        proof (cases "float_div (size_h st2) (capacity st2) > load_factor st2")
          case True
          with Suc.prems(1) have "ht_resize_with (ht_insert_no_lock hf n) st2 = Ok st'"
            by (simp only: e if_True)
          then have "ht_resize_with (ht_insert_no_lock hf m') st2 = Ok st'" by (rule **)
          with True show ?thesis by (simp only: m(1) e if_True)
        next
          case False
          with Suc.prems(1) show ?thesis by (simp only: m(1) e if_False)
        qed
      qed
    qed
  next
    case (Raise e)
    with Suc.prems(1) show ?thesis by (simp add: ht_insert_no_lock.simps)
  next
    case OutOfFuel
    with Suc.prems(1) show ?thesis by (simp add: ht_insert_no_lock.simps)
  qed
qed

lemma find_distinct_key:
  "distinct (map f xs) \<Longrightarrow> m \<in> set xs \<Longrightarrow> find (\<lambda>x. f x = f m) xs = Some m"
proof (induction xs)
  case Nil
  then show ?case by simp
next
  case (Cons a xs)
  show ?case
  proof (cases "a = m")
    case True
    then show ?thesis by simp
  next
    case False
    with Cons.prems have mx: "m \<in> set xs" by simp
    from Cons.prems have "f a \<notin> f ` set xs" by simp
    with mx have "f a \<noteq> f m" by (metis imageI)
    with Cons mx show ?thesis by simp
  qed
qed

lemma distinct_map_concat_nth:
  "distinct (map f (concat bs)) \<Longrightarrow> i < length bs \<Longrightarrow> distinct (map f (bs ! i))"
proof (induction bs arbitrary: i)
  case Nil
  then show ?case by simp
next
  case (Cons b bs)
  then show ?case by (cases i) auto
qed

lemma ht_search_found:
  assumes inv: "ht_inv hf st" and m: "m \<in> set (concat (buckets st))"
  shows "ht_search_by_filename hf st (filename m) = Ok (Some m)"
proof -
  let ?idx = "nat (hf (filename m) mod int (capacity st))"
  from inv have c: "0 < capacity st" "length (buckets st) = capacity st"
    and d: "distinct (map filename (concat (buckets st)))" by (simp_all add: ht_inv_def)
  then have lt: "?idx < length (buckets st)" by (simp add: hash_idx_lt)
  have "distinct (map filename (buckets st ! ?idx))" using d lt by (rule distinct_map_concat_nth)
  moreover have "m \<in> set (buckets st ! ?idx)" using inv m by (rule ht_inv_bucket_of)
  ultimately have "find (\<lambda>x. filename x = filename m) (buckets st ! ?idx) = Some m"
    by (rule find_distinct_key)
  then show ?thesis using c lt by (simp add: ht_search_by_filename_def ht_hash_def)
qed

lemma ht_search_absent:
  assumes inv: "ht_inv hf st" and m: "name \<notin> filename ` set (concat (buckets st))"
  shows "ht_search_by_filename hf st name = Ok None"
proof -
  let ?idx = "nat (hf name mod int (capacity st))"
  from inv have c: "0 < capacity st" "length (buckets st) = capacity st" by (simp_all add: ht_inv_def)
  then have lt: "?idx < length (buckets st)" by (simp add: hash_idx_lt)
  have "set (buckets st ! ?idx) \<subseteq> set (concat (buckets st))" using lt by (auto intro: nth_mem)
  with m have "\<forall>x \<in> set (buckets st ! ?idx). filename x \<noteq> name" by blast
  then have "find (\<lambda>x. filename x = name) (buckets st ! ?idx) = None" by (simp add: find_None_iff)
  then show ?thesis using c lt by (simp add: ht_search_by_filename_def ht_hash_def)
qed

lemma ht_insert_no_lock_existing:
  assumes c: "0 < capacity st" and len: "length (buckets st) = capacity st"
    and idx: "idx = nat (hf (filename md) mod int (capacity st))"
    and ex: "filename md \<in> filename ` set (buckets st ! idx)"
  shows "\<exists>i < length (buckets st ! idx).
           filename (buckets st ! idx ! i) = filename md
         \<and> (\<forall>j < i. filename (buckets st ! idx ! j) \<noteq> filename md)
         \<and> ht_insert_no_lock hf (Suc n) st md
             = Ok (st\<lparr>buckets := (buckets st)[idx := (buckets st ! idx)[i := md]]\<rparr>)"
proof -
  from ex obtain b where b: "bucket_replace (buckets st ! idx) md = Some b"
    using bucket_replace_None [of "buckets st ! idx" md] by (cases "bucket_replace (buckets st ! idx) md") auto
  from bucket_replace_Some [OF b] obtain i where
    i: "i < length (buckets st ! idx)" "b = (buckets st ! idx)[i := md]"
       "filename (buckets st ! idx ! i) = filename md"
       "\<forall>j < i. filename (buckets st ! idx ! j) \<noteq> filename md" by blast
  have lt: "idx < length (buckets st)" using c len idx by (simp add: hash_idx_lt)
  have "ht_insert_no_lock hf (Suc n) st md = Ok (st\<lparr>buckets := (buckets st)[idx := b]\<rparr>)"
    using c lt b idx by (simp add: ht_insert_no_lock.simps ht_hash_def)
  with i show ?thesis by blast
qed

lemma ht_insert_no_lock_new_total:
  assumes inv: "ht_inv hf st" and lf: "0 < load_factor st"
    and new: "filename md \<notin> filename ` set (concat (buckets st))"
  shows "\<exists>fuel0 st'. (\<forall>fuel \<ge> fuel0. ht_insert_no_lock hf fuel st md = Ok st')
           \<and> ht_inv hf st' \<and> ht_frame st st'
           \<and> mset (concat (buckets st')) = mset (concat (buckets st)) + {#md#}
           \<and> ht_grown st st'
           \<and> fits (load_factor st) (size_h st') (capacity st')
           \<and> (capacity st' = capacity st
                \<longleftrightarrow> fits (load_factor st) (size_h st + 1) (capacity st))"
proof -
  from inv have c: "0 < capacity st" by (simp add: ht_inv_def)
  from ex_fits [OF lf c] obtain d where
    d: "fits (load_factor st) (size_h st + 1) (2 ^ d * capacity st)" by blast
  have "insert_new_ok hf (load_factor st) d" using insert_rehash_ok [OF lf] by blast
  with inv new d obtain st' where
    st': "ht_insert_no_lock hf (Suc d) st md = Ok st'" "ht_inv hf st'" "ht_frame st st'"
      "mset (concat (buckets st')) = mset (concat (buckets st)) + {#md#}" "ht_grown st st'"
      "fits (load_factor st) (size_h st') (capacity st')"
      "capacity st' = capacity st \<longleftrightarrow> fits (load_factor st) (size_h st + 1) (capacity st)"
    unfolding insert_new_ok_def by blast
  have "\<forall>fuel \<ge> Suc d. ht_insert_no_lock hf fuel st md = Ok st'"
    using ht_insert_no_lock_mono [OF st'(1)] by blast
  with st'(2-7) show ?thesis by blast
qed

definition ht_ok :: "(string \<Rightarrow> int) \<Rightarrow> HashTableIndex \<Rightarrow> bool" where
  "ht_ok hf st \<longleftrightarrow> ht_inv hf st \<and> 0 < load_factor st \<and> tag_wf st"

lemma ht_ok_init: "0 < c \<Longrightarrow> 0 < lf \<Longrightarrow> ht_ok hf (ht_init c lf)"
  by (simp add: ht_ok_def ht_inv_def ht_init_def tag_wf_def)

lemma ht_frame_refl: "ht_frame st st"
  by (simp add: ht_frame_def)

lemma ht_frame_trans: "ht_frame a b \<Longrightarrow> ht_frame b c \<Longrightarrow> ht_frame a c"
  by (simp add: ht_frame_def)

lemma result_fold_frame:
  assumes "\<And>s x s'. f s x = Ok s' \<Longrightarrow> ht_frame s s'"
  shows "result_fold f s xs = Ok s' \<Longrightarrow> ht_frame s s'"
proof (induction xs arbitrary: s)
  case Nil
  then show ?case by (simp add: ht_frame_refl)
next
  case (Cons x xs)
  from Cons.prems obtain s1 where s1: "f s x = Ok s1" "result_fold f s1 xs = Ok s'"
    by (cases "f s x") simp_all
  from assms [OF s1(1)] Cons.IH [OF s1(2)] show ?case by (rule ht_frame_trans)
qed

lemma ht_insert_no_lock_frame:
  "ht_insert_no_lock hf n st md = Ok st' \<Longrightarrow> ht_frame st st'"
proof (induction n arbitrary: st md st')
  case 0
  then show ?case by (simp add: ht_insert_no_lock.simps)
next
  case (Suc n)
  have *: "ht_resize_with (ht_insert_no_lock hf n) s = Ok s' \<Longrightarrow> ht_frame s s'" for s s'
  proof -
    assume a: "ht_resize_with (ht_insert_no_lock hf n) s = Ok s'"
    let ?s3 = "s\<lparr>capacity := capacity s * 2, buckets := replicate (capacity s * 2) [], size_h := 0\<rparr>"
    from a have "result_fold (ht_insert_no_lock hf n) ?s3 (concat (buckets s)) = Ok s'"
      by (simp add: ht_resize_with_def Let_def result_fold_concat)
    then have "ht_frame ?s3 s'"
      by (rule result_fold_frame [of "ht_insert_no_lock hf n", rotated]) (rule Suc.IH)
    then show "ht_frame s s'" by (simp add: ht_frame_def)
  qed
  show ?case
  proof (cases "ht_hash hf st (filename md)")
    case (Ok index)
    show ?thesis
    proof (cases "length (buckets st) \<le> index")
      case True
      with Ok Suc.prems show ?thesis by (simp add: ht_insert_no_lock.simps)
    next
      case False
      show ?thesis
      proof (cases "bucket_replace (buckets st ! index) md")
        case (Some b)
        with Ok False Suc.prems show ?thesis by (auto simp: ht_insert_no_lock.simps ht_frame_def)
      next
        case None
        define st2 where "st2 = st\<lparr>buckets := (buckets st)[index := buckets st ! index @ [md]],
          size_h := size_h st + 1\<rparr>"
        have e: "ht_insert_no_lock hf (Suc n) st md =
            (if float_div (size_h st2) (capacity st2) > load_factor st2
             then ht_resize_with (ht_insert_no_lock hf n) st2 else Ok st2)"
          using Ok False None by (simp add: ht_insert_no_lock.simps st2_def Let_def)
        have f2: "ht_frame st st2" by (simp add: ht_frame_def st2_def)
        show ?thesis
        proof (cases "float_div (size_h st2) (capacity st2) > load_factor st2")
          case True
          with Suc.prems have "ht_resize_with (ht_insert_no_lock hf n) st2 = Ok st'"
            by (simp only: e if_True)
          then have "ht_frame st2 st'" by (rule *)
          with f2 show ?thesis by (rule ht_frame_trans)
        next
          case False
          with Suc.prems have "st' = st2" by (simp only: e if_False) simp
          with f2 show ?thesis by simp
        qed
      qed
    qed
  next
    case (Raise e)
    with Suc.prems show ?thesis by (simp add: ht_insert_no_lock.simps)
  next
    case OutOfFuel
    with Suc.prems show ?thesis by (simp add: ht_insert_no_lock.simps)
  qed
qed

lemma ht_update_tag_index_fields:
  fixes st :: HashTableIndex
  shows "buckets (update_tag_index st md) = buckets st"
    and "capacity (update_tag_index st md) = capacity st"
    and "size_h (update_tag_index st md) = size_h st"
    and "load_factor (update_tag_index st md) = load_factor st"
proof -
  obtain ti ls nr where "update_tag_index st md = st\<lparr>tag_index := ti, list_objs := ls, next_ref := nr\<rparr>"
    using update_tag_index_frame by blast
  then show "buckets (update_tag_index st md) = buckets st"
    and "capacity (update_tag_index st md) = capacity st"
    and "size_h (update_tag_index st md) = size_h st"
    and "load_factor (update_tag_index st md) = load_factor st" by simp_all
qed

lemma ht_inv_update_tag_index: "ht_inv hf (update_tag_index st md) = ht_inv hf st"
  by (simp add: ht_inv_def ht_update_tag_index_fields)

lemma ht_search_update_tag_index:
  "ht_search_by_filename hf (update_tag_index st md) name = ht_search_by_filename hf st name"
  by (simp add: ht_search_by_filename_def ht_hash_def ht_update_tag_index_fields)

lemma tag_wf_frame:
  "ht_frame st st' \<Longrightarrow> tag_wf st \<Longrightarrow> tag_wf st'"
  by (simp add: ht_frame_def tag_wf_def)

lemma tag_contents_frame:
  "ht_frame st st' \<Longrightarrow> tag_contents st' t = tag_contents st t"
  by (simp add: ht_frame_def tag_contents_def split: option.splits)

text \<open>What one \<^verbatim>\<open>_insert_no_lock\<close> does to a well-formed table, whatever the budget.\<close>

lemma ht_insert_no_lock_total:
  assumes inv: "ht_inv hf st" and lf: "0 < load_factor st"
  shows "\<exists>fuel0 st'. (\<forall>fuel \<ge> fuel0. ht_insert_no_lock hf fuel st md = Ok st')
           \<and> ht_inv hf st' \<and> ht_frame st st'
           \<and> filename ` set (concat (buckets st')) = insert (filename md) (filename ` set (concat (buckets st)))
           \<and> md \<in> set (concat (buckets st'))"
proof (cases "filename md \<in> filename ` set (concat (buckets st))")
  case False
  from ht_insert_no_lock_new_total [OF inv lf False] obtain fuel0 st' where
    s: "\<forall>fuel \<ge> fuel0. ht_insert_no_lock hf fuel st md = Ok st'" "ht_inv hf st'" "ht_frame st st'"
       "mset (concat (buckets st')) = mset (concat (buckets st)) + {#md#}" by blast
  from s(4) have "set (concat (buckets st')) = insert md (set (concat (buckets st)))"
    by (metis set_mset_mset set_mset_add_mset_insert add_mset_add_single)
  with s(1-3) show ?thesis by (intro exI[of _ fuel0] exI[of _ st']) auto
next
  case True
  let ?idx = "nat (hf (filename md) mod int (capacity st))"
  from inv have c: "0 < capacity st" "length (buckets st) = capacity st" by (simp_all add: ht_inv_def)
  have lt: "?idx < length (buckets st)" using c by (simp add: hash_idx_lt)
  from True obtain m where m: "m \<in> set (concat (buckets st))" "filename m = filename md"
    by (metis imageE)
  have "m \<in> set (buckets st ! ?idx)" using ht_inv_bucket_of [OF inv m(1)] m(2) by simp
  with m(2) have ex: "filename md \<in> filename ` set (buckets st ! ?idx)" by (metis imageI)
  then obtain b where b: "bucket_replace (buckets st ! ?idx) md = Some b"
    using bucket_replace_None [of "buckets st ! ?idx" md]
    by (cases "bucket_replace (buckets st ! ?idx) md") auto
  let ?st' = "st\<lparr>buckets := (buckets st)[?idx := b]\<rparr>"
  have run: "ht_insert_no_lock hf (Suc n) st md = Ok ?st'" for n
    using c lt b by (simp add: ht_insert_no_lock.simps ht_hash_def)
  have all: "\<forall>fuel \<ge> Suc 0. ht_insert_no_lock hf fuel st md = Ok ?st'"
  proof (intro allI impI)
    fix fuel :: nat assume "Suc 0 \<le> fuel"
    then obtain n where "fuel = Suc n" by (cases fuel) auto
    with run show "ht_insert_no_lock hf fuel st md = Ok ?st'" by simp
  qed
  have inv': "ht_inv hf ?st'" using ht_inv_replace(1) [OF inv refl b] .
  have mf: "map filename (concat (buckets ?st')) = map filename (concat (buckets st))"
    using ht_inv_replace(2) [OF inv refl b] by simp
  have "filename ` set (concat (buckets ?st')) = filename ` set (concat (buckets st))"
    using mf by (metis set_map)
  with True have fn: "filename ` set (concat (buckets ?st'))
      = insert (filename md) (filename ` set (concat (buckets st)))" by auto
  have "md \<in> set b" using bucket_replace_set [OF b] by simp
  then have mem: "md \<in> set (concat (buckets ?st'))"
    using lt by (auto simp: set_concat intro!: bexI[of _ b] set_update_memI)
  have fr: "ht_frame st ?st'" by (simp add: ht_frame_def)
  show ?thesis using all inv' fr fn mem by (intro exI[of _ "Suc 0"] exI[of _ ?st']) simp
qed

lemma ht_insert_total:
  assumes ok: "ht_ok hf st"
  shows "\<exists>fuel0 st'. (\<forall>fuel \<ge> fuel0. ht_insert hf fuel st md = Ok st')
           \<and> ht_ok hf st'
           \<and> load_factor st' = load_factor st
           \<and> filename ` set (concat (buckets st')) = insert (filename md) (filename ` set (concat (buckets st)))
           \<and> md \<in> set (concat (buckets st'))
           \<and> (\<forall>t. tag_contents st' t = tag_contents st t @ replicate (count_list (tags md) t) md)"
proof -
  from ok have inv: "ht_inv hf st" and lf: "0 < load_factor st" and wf: "tag_wf st"
    by (simp_all add: ht_ok_def)
  from ht_insert_no_lock_total [OF inv lf, of md] obtain fuel0 s1 where
    s1: "\<forall>fuel \<ge> fuel0. ht_insert_no_lock hf fuel st md = Ok s1" "ht_inv hf s1" "ht_frame st s1"
      "filename ` set (concat (buckets s1)) = insert (filename md) (filename ` set (concat (buckets st)))"
      "md \<in> set (concat (buckets s1))" by blast
  let ?st' = "update_tag_index s1 md"
  have wf1: "tag_wf s1" using s1(3) wf by (rule tag_wf_frame)
  have run: "\<forall>fuel \<ge> fuel0. ht_insert hf fuel st md = Ok ?st'"
    using s1(1) by (simp add: ht_insert_def)
  have lf': "load_factor ?st' = load_factor st"
    using s1(3) by (simp add: ht_update_tag_index_fields ht_frame_def)
  have ok': "ht_ok hf ?st'"
    using s1(2) lf lf' wf1 by (simp add: ht_ok_def ht_inv_update_tag_index update_tag_index_wf)
  have tc: "\<forall>t. tag_contents ?st' t = tag_contents st t @ replicate (count_list (tags md) t) md"
    using update_tag_index_contents [OF wf1] tag_contents_frame [OF s1(3)] by simp
  show ?thesis
    using run ok' lf' s1(4,5) tc
    by (intro exI[of _ fuel0] exI[of _ ?st']) (simp add: ht_update_tag_index_fields)
qed

lemma ht_insert_mono:
  "ht_insert hf n st md = Ok st' \<Longrightarrow> n \<le> m \<Longrightarrow> ht_insert hf m st md = Ok st'"
  by (auto simp: ht_insert_def split: result.splits dest: ht_insert_no_lock_mono)

lemma ht_insert_ok:
  assumes ok: "ht_ok hf st" and run: "ht_insert hf fuel st md = Ok st'"
  shows "ht_ok hf st'"
    and "load_factor st' = load_factor st"
    and "filename ` set (concat (buckets st')) = insert (filename md) (filename ` set (concat (buckets st)))"
    and "md \<in> set (concat (buckets st'))"
    and "tag_contents st' t = tag_contents st t @ replicate (count_list (tags md) t) md"
proof -
  from ht_insert_total [OF ok, of md] obtain fuel0 s where
    s: "\<forall>fuel \<ge> fuel0. ht_insert hf fuel st md = Ok s" "ht_ok hf s"
      "load_factor s = load_factor st"
      "filename ` set (concat (buckets s)) = insert (filename md) (filename ` set (concat (buckets st)))"
      "md \<in> set (concat (buckets s))"
      "\<forall>t. tag_contents s t = tag_contents st t @ replicate (count_list (tags md) t) md" by blast
  have "ht_insert hf (max fuel fuel0) st md = Ok st'" using run by (rule ht_insert_mono) simp
  moreover have "ht_insert hf (max fuel fuel0) st md = Ok s" using s(1) by simp
  ultimately have "st' = s" by simp
  with s show "ht_ok hf st'"
    and "load_factor st' = load_factor st"
    and "filename ` set (concat (buckets st')) = insert (filename md) (filename ` set (concat (buckets st)))"
    and "md \<in> set (concat (buckets st'))"
    and "tag_contents st' t = tag_contents st t @ replicate (count_list (tags md) t) md" by simp_all
qed

lemma ht_list_files_props:
  assumes inv: "ht_inv hf st"
  shows "sorted_wrt (<) (map filename (ht_list_files st ''asc''))"
    and "ht_list_files st ''desc'' = rev (ht_list_files st ''asc'')"
    and "mset (ht_list_files st ''asc'') = mset (concat (buckets st))"
proof -
  from inv have d: "distinct (map filename (concat (buckets st)))" by (simp add: ht_inv_def)
  have asc: "ht_list_files st ''asc'' = sort_key filename (concat (buckets st))"
    by (simp add: ht_list_files_def)
  have "distinct (map filename (sort_key filename (concat (buckets st))))"
    using d by (simp add: distinct_map)
  then show "sorted_wrt (<) (map filename (ht_list_files st ''asc''))"
    by (simp add: asc strict_sorted_iff)
  show "ht_list_files st ''desc'' = rev (ht_list_files st ''asc'')"
    using sort_key_rev_distinct [OF d] by (simp add: ht_list_files_def)
  show "mset (ht_list_files st ''asc'') = mset (concat (buckets st))" by (simp add: asc)
qed

lemma ht_inserts_ok:
  assumes "ht_ok hf st0" and "ht_inserts hf fuel st0 mds = Ok st"
  shows "ht_ok hf st
    \<and> load_factor st = load_factor st0
    \<and> filename ` set (concat (buckets st)) = filename ` set mds \<union> filename ` set (concat (buckets st0))
    \<and> (\<forall>t. tag_contents st t = tag_contents st0 t @ concat (map (\<lambda>r. replicate (count_list (tags r) t) r) mds))"
  using assms unfolding ht_inserts_def
proof (induction mds arbitrary: st0)
  case Nil
  then show ?case by simp
next
  case (Cons md mds)
  from Cons.prems(2) obtain s1 where s1: "ht_insert hf fuel st0 md = Ok s1"
    "result_fold (ht_insert hf fuel) s1 mds = Ok st"
    by (cases "ht_insert hf fuel st0 md") simp_all
  note a = ht_insert_ok [OF Cons.prems(1) s1(1)]
  from Cons.IH [OF a(1) s1(2)] a(2,3,5) show ?case by auto
qed

lemma ht_inserts_total:
  assumes "ht_ok hf st0"
  shows "\<exists>fuel0 st. \<forall>fuel \<ge> fuel0. ht_inserts hf fuel st0 mds = Ok st"
  using assms unfolding ht_inserts_def
proof (induction mds arbitrary: st0)
  case Nil
  then show ?case by simp
next
  case (Cons md mds)
  from ht_insert_total [OF Cons.prems, of md] obtain f1 s1 where
    s1: "\<forall>fuel \<ge> f1. ht_insert hf fuel st0 md = Ok s1" "ht_ok hf s1" by blast
  from Cons.IH [OF s1(2)] obtain f2 st where
    st: "\<forall>fuel \<ge> f2. result_fold (ht_insert hf fuel) s1 mds = Ok st" by blast
  have "\<forall>fuel \<ge> max f1 f2. result_fold (ht_insert hf fuel) st0 (md # mds) = Ok st"
    using s1(1) st by simp
  then show ?case by blast
qed

lemma ht_inv_card:
  assumes "ht_inv hf st"
  shows "size_h st = card (filename ` set (concat (buckets st)))"
proof -
  from assms have "distinct (map filename (concat (buckets st)))"
    and "size_h st = length (concat (buckets st))" by (simp_all add: ht_inv_def)
  then show ?thesis by (metis distinct_card length_map set_map)
qed

lemma ht_resize_growth:
  assumes inv: "ht_inv hf st" and lf: "0 < load_factor st"
    and new: "filename md \<notin> filename ` set (concat (buckets st))"
    and over: "load_factor st < float_div (size_h st + 1) (capacity st)"
  shows "\<exists>fuel0 st' k. (\<forall>fuel \<ge> fuel0. ht_insert_no_lock hf fuel st md = Ok st')
      \<and> 1 \<le> k \<and> capacity st' = 2 ^ k * capacity st
      \<and> fits (load_factor st) (size_h st + 1) (2 ^ k * capacity st)
      \<and> \<not> fits (load_factor st) (size_h st + 1) (2 ^ (k - 1) * capacity st)
      \<and> ht_inv hf st' \<and> ht_frame st st'
      \<and> mset (concat (buckets st')) = mset (concat (buckets st)) + {#md#}"
proof -
  from over have over': "\<not> fits (load_factor st) (size_h st + 1) (capacity st)"
    by (simp add: fits_def)
  from ht_insert_no_lock_new_total [OF inv lf new] obtain fuel0 st' where
    s: "\<forall>fuel \<ge> fuel0. ht_insert_no_lock hf fuel st md = Ok st'" "ht_inv hf st'" "ht_frame st st'"
       "mset (concat (buckets st')) = mset (concat (buckets st)) + {#md#}" "ht_grown st st'"
       "fits (load_factor st) (size_h st') (capacity st')"
       "capacity st' = capacity st \<longleftrightarrow> fits (load_factor st) (size_h st + 1) (capacity st)"
    by blast
  have sz: "size_h st' = size_h st + 1"
    using ht_inv_size [OF s(2)] ht_inv_size [OF inv] s(4) by simp
  from s(7) over' have ne: "capacity st' \<noteq> capacity st" by simp
  from s(5) obtain k where k: "capacity st' = 2 ^ k * capacity st"
    "k = 0 \<or> \<not> fits (load_factor st) (size_h st') (capacity st' div 2)"
    unfolding ht_grown_def by blast
  from k(1) ne have k1: "1 \<le> k" by (cases k) auto
  then obtain j where j: "k = Suc j" by (cases k) auto
  from k(2) k1 have "\<not> fits (load_factor st) (size_h st') (capacity st' div 2)" by simp
  moreover have "capacity st' div 2 = 2 ^ (k - 1) * capacity st" using k(1) j by simp
  ultimately have "\<not> fits (load_factor st) (size_h st + 1) (2 ^ (k - 1) * capacity st)"
    using sz by simp
  moreover have "fits (load_factor st) (size_h st + 1) (2 ^ k * capacity st)"
    using s(6) sz k(1) by simp
  ultimately show ?thesis using s(1-4) k1 k(1) by blast
qed

section \<open>Properties of the 2-3 tree\<close>

text \<open>The record list of a node after \<^verbatim>\<open>_insert_into_node\<close>'s loop.\<close>

fun ins_list :: "FileMetadata \<Rightarrow> FileMetadata list \<Rightarrow> FileMetadata list" where
  "ins_list md [] = [md]"
| "ins_list md (x # xs) = (if md_lt md x then md # x # xs else x # ins_list md xs)"

fun interleave :: "'a list list \<Rightarrow> 'a list \<Rightarrow> 'a list" where
  "interleave [] ks = []"
| "interleave [l] ks = l"
| "interleave (l # ls) [] = l"
| "interleave (l # ls) (k # ks) = l @ k # interleave ls ks"

fun tt_list :: "TwoThreeNode \<Rightarrow> FileMetadata list" where
  "tt_list (Node ks cs) = (if cs = [] then ks else interleave (map tt_list cs) ks)"

text \<open>
  \<open>tt_inv d U n\<close>: the node \<open>n\<close> is the root of a 2-3 tree all of whose leaves are
  at level \<open>d\<close>; every node has one or two keys and no or one more children than keys;
  in every node all keys but the last are below the key that follows the node in its
  parent (\<open>U\<close> for the root and along the right spine).
\<close>

fun tt_inv :: "nat \<Rightarrow> string option \<Rightarrow> TwoThreeNode \<Rightarrow> bool" where
  "tt_inv 0 U n = False"
| "tt_inv (Suc d) U n =
     ((length (tkeys n) = 1 \<or> length (tkeys n) = 2)
      \<and> (\<forall>k \<in> set (butlast (tkeys n)). lt_bound (filename k) U)
      \<and> (if tchildren n = [] then d = 0
          else length (tchildren n) = length (tkeys n) + 1
             \<and> (\<forall>i < length (tchildren n).
                  tt_inv d (if i < length (tkeys n) then Some (filename (tkeys n ! i)) else U)
                    (tchildren n ! i))))"

text \<open>Every path from the node to a leaf has \<open>d\<close> nodes.\<close>

fun tt_path_nodes :: "nat \<Rightarrow> TwoThreeNode \<Rightarrow> bool" where
  "tt_path_nodes 0 n = False"
| "tt_path_nodes (Suc d) n =
     (if is_leaf_t n then d = 0 else (\<forall>c \<in> set (tchildren n). tt_path_nodes d c))"

lemma keys_ins_list:
  "(case first_index (\<lambda>key. md_lt md key) ks of Some i \<Rightarrow> list_insert ks i md | None \<Rightarrow> ks @ [md])
     = ins_list md ks"
  by (induction ks) (auto simp: list_insert_def split: option.splits)

lemma tt_inv_cases:
  assumes "tt_inv d U n"
  obtains (L1) a where "n = Node [a] []" "d = 1"
  | (L2) a b where "n = Node [a, b] []" "d = 1" "lt_bound (filename a) U"
  | (N1) a l r d' where "n = Node [a] [l, r]" "d = Suc (Suc d')"
      "tt_inv (Suc d') (Some (filename a)) l" "tt_inv (Suc d') U r"
  | (N2) a b l m r d' where "n = Node [a, b] [l, m, r]" "d = Suc (Suc d')" "lt_bound (filename a) U"
      "tt_inv (Suc d') (Some (filename a)) l" "tt_inv (Suc d') (Some (filename b)) m" "tt_inv (Suc d') U r"
proof -
  obtain ks cs where n: "n = Node ks cs" by (cases n)
  from assms obtain e where d: "d = Suc e" by (cases d) auto
  from assms have len: "length ks = 1 \<or> length ks = 2" by (simp add: n d)
  show thesis
  proof (cases "cs = []")
    case True
    with assms have e0: "e = 0" by (simp add: n d)
    from len show thesis
    proof
      assume "length ks = 1"
      then obtain a where "ks = [a]" by (cases ks) auto
      with True n d e0 L1 show thesis by simp
    next
      assume "length ks = 2"
      then obtain a b where ks: "ks = [a, b]" by (cases ks; cases "tl ks") auto
      with assms have "lt_bound (filename a) U" by (simp add: n d)
      with ks True n d e0 L2 show thesis by simp
    qed
  next
    case False
    with assms have lc: "length cs = length ks + 1"
      and ch: "\<forall>i < length cs. tt_inv e (if i < length ks then Some (filename (ks ! i)) else U) (cs ! i)"
      by (simp_all add: n d cong: if_cong)
    from ch lc have "tt_inv e (Some (filename (ks ! 0))) (cs ! 0)" using len by auto
    then obtain d' where e: "e = Suc d'" by (cases e) auto
    from len show thesis
    proof
      assume l1: "length ks = 1"
      then obtain a where ks: "ks = [a]" by (cases ks) auto
      with lc obtain l r where cs: "cs = [l, r]" by (cases cs; cases "tl cs") auto
      from ch [rule_format, of 0] ch [rule_format, of 1]
      have "tt_inv e (Some (filename a)) l" "tt_inv e U r"
        using ks cs by simp_all
      with ks cs n d e N1 show thesis by simp
    next
      assume l2: "length ks = 2"
      then obtain a b where ks: "ks = [a, b]" by (cases ks; cases "tl ks") auto
      with lc obtain l m r where cs: "cs = [l, m, r]"
        by (cases cs; cases "tl cs"; cases "tl (tl cs)") auto
      from assms have la: "lt_bound (filename a) U" by (simp add: n d ks)
      from ch [rule_format, of 0] ch [rule_format, of 1] ch [rule_format, of 2]
      have "tt_inv e (Some (filename a)) l" "tt_inv e (Some (filename b)) m" "tt_inv e U r"
        using ks cs by simp_all
      with ks cs n d e la N2 show thesis by simp
    qed
  qed
qed


declare insert_helper.simps [simp del]

lemma tt_inv_L1 [simp]: "tt_inv (Suc d) U (Node [a] []) \<longleftrightarrow> d = 0"
  by simp

lemma tt_inv_L2 [simp]: "tt_inv (Suc d) U (Node [a, b] []) \<longleftrightarrow> d = 0 \<and> lt_bound (filename a) U"
  by auto

lemma tt_inv_N1 [simp]:
  "tt_inv (Suc d) U (Node [a] [l, r]) \<longleftrightarrow> tt_inv d (Some (filename a)) l \<and> tt_inv d U r"
  by (auto simp: nth_Cons' less_Suc_eq)

lemma tt_inv_N2 [simp]:
  "tt_inv (Suc d) U (Node [a, b] [l, m, r]) \<longleftrightarrow>
     lt_bound (filename a) U \<and> tt_inv d (Some (filename a)) l \<and> tt_inv d (Some (filename b)) m
     \<and> tt_inv d U r"
  by (auto simp: nth_Cons' less_Suc_eq numeral_3_eq_3)

declare tt_inv.simps(2) [simp del]

lemma set_ins_list [simp]: "set (ins_list md xs) = insert md (set xs)"
  by (induction xs) auto

lemma mset_ins_list [simp]: "mset (ins_list md xs) = add_mset md (mset xs)"
  by (induction xs) auto

lemma length_ins_list [simp]: "length (ins_list md xs) = Suc (length xs)"
  by (induction xs) auto

lemma ins_list_append_lt:
  "md_lt md a \<Longrightarrow> ins_list md (xs @ a # ys) = ins_list md xs @ a # ys"
  by (induction xs) auto

lemma ins_list_append_ge:
  "\<forall>x \<in> set xs. \<not> md_lt md x \<Longrightarrow> ins_list md (xs @ ys) = xs @ ins_list md ys"
  by (induction xs) auto

lemma sorted_ins_list:
  "sorted (map filename xs) \<Longrightarrow> sorted (map filename (ins_list md xs))"
  by (induction xs) (auto simp: md_lt_def)

lemma insert_helper_leaf:
  "insert_helper (Node ks []) md =
     (if length ks = 2
      then rbind (split_node (Node (ins_list md ks) [])) (\<lambda>c. Ok (Node (ins_list md ks) [], Some c))
      else Ok (Node (ins_list md ks) [], None))"
  by (subst insert_helper.simps)
     (simp add: is_leaf_t_def insert_into_node_def keys_ins_list Let_def
        cong: option.case_cong if_cong)

lemma insert_helper_node:
  "insert_helper (Node ks (c # cs)) md =
     (let child_index = (case first_index (\<lambda>key. md_lt md key) ks of Some i \<Rightarrow> i | None \<Rightarrow> length ks)
      in if length (c # cs) \<le> child_index then Raise IndexError
         else
           rbind (insert_helper ((c # cs) ! child_index) md)
             (\<lambda>(child1, new_child).
                let node1 = Node ks ((c # cs)[child_index := child1])
                in case new_child of
                     Some nc \<Rightarrow>
                       (case tkeys nc of
                          middle_key # _ \<Rightarrow> insert_into_internal node1 middle_key nc child_index
                        | [] \<Rightarrow> Raise IndexError)
                   | None \<Rightarrow> Ok (node1, None)))"
  by (subst insert_helper.simps)
     (simp add: is_leaf_t_def find_child_index_def Let_def
        cong: option.case_cong if_cong list.case_cong)

definition ins_result ::
  "nat \<Rightarrow> string option \<Rightarrow> TwoThreeNode \<Rightarrow> FileMetadata \<Rightarrow> bool" where
  "ins_result d U n md \<longleftrightarrow>
     (\<exists>n'. insert_helper n md = Ok (n', None) \<and> tt_inv d U n'
            \<and> ins_list md (tt_list n) = tt_list n')
   \<or> (\<exists>n' l k r. insert_helper n md = Ok (n', Some (Node [k] [l, r]))
            \<and> tt_inv d (Some (filename k)) l \<and> tt_inv d U r \<and> lt_bound (filename k) U
            \<and> ins_list md (tt_list n) = tt_list l @ k # tt_list r)"

lemma ins_leaf1:
  assumes "lt_bound (filename md) U"
  shows "ins_result 1 U (Node [a] []) md"
proof -
  have "lt_bound (filename a) U" if "\<not> filename md < filename a"
    using that assms by (intro lt_bound_trans [of "filename a" "filename md"]) simp_all
  then show ?thesis
    unfolding ins_result_def using assms
    by (auto simp: insert_helper_leaf md_lt_def)
qed

lemma ins_leaf2:
  assumes "lt_bound (filename md) U" "lt_bound (filename a) U" "filename a \<le> filename b"
  shows "ins_result 1 U (Node [a, b] []) md"
proof -
  have "lt_bound (filename b) U" if "\<not> filename md < filename b"
    using that assms by (intro lt_bound_trans [of "filename b" "filename md"]) simp_all
  then show ?thesis
    unfolding ins_result_def using assms
    by (auto simp: insert_helper_leaf md_lt_def split_node_def rbind_def is_leaf_t_def)
qed


lemma tt_list_simps [simp]:
  "tt_list (Node ks []) = ks"
  "tt_list (Node [a] [l, r]) = tt_list l @ a # tt_list r"
  "tt_list (Node [a, b] [l, m, r]) = tt_list l @ a # tt_list m @ b # tt_list r"
  by simp_all

declare tt_list.simps [simp del]

lemma ins_node1_left:
  assumes child: "ins_result d (Some (filename a)) l md"
    and lt: "filename md < filename a" and r: "tt_inv d U r" and a: "le_bound (filename a) U"
  shows "ins_result (Suc d) U (Node [a] [l, r]) md"
proof -
  have k: "lt_bound (filename k) U" if "filename k < filename a" for k
    using that a by (rule lt_le_bound_trans)
  from child show ?thesis
    unfolding ins_result_def
  proof (elim disjE exE conjE)
    fix l'
    assume "insert_helper l md = Ok (l', None)" "tt_inv d (Some (filename a)) l'"
      "ins_list md (tt_list l) = tt_list l'"
    then show "(\<exists>n'. insert_helper (Node [a] [l, r]) md = Ok (n', None) \<and> tt_inv (Suc d) U n'
            \<and> ins_list md (tt_list (Node [a] [l, r])) = tt_list n')
       \<or> (\<exists>n' l' k r'. insert_helper (Node [a] [l, r]) md = Ok (n', Some (Node [k] [l', r']))
            \<and> tt_inv (Suc d) (Some (filename k)) l' \<and> tt_inv (Suc d) U r' \<and> lt_bound (filename k) U
            \<and> ins_list md (tt_list (Node [a] [l, r])) = tt_list l' @ k # tt_list r')"
      using lt r
      by (intro disjI1 exI[of _ "Node [a] [l', r]"])
         (simp add: insert_helper_node md_lt_def rbind_def ins_list_append_lt)
  next
    fix l' l1 k r1
    assume "insert_helper l md = Ok (l', Some (Node [k] [l1, r1]))"
      "tt_inv d (Some (filename k)) l1" "tt_inv d (Some (filename a)) r1"
      "lt_bound (filename k) (Some (filename a))"
      "ins_list md (tt_list l) = tt_list l1 @ k # tt_list r1"
    then show "(\<exists>n'. insert_helper (Node [a] [l, r]) md = Ok (n', None) \<and> tt_inv (Suc d) U n'
            \<and> ins_list md (tt_list (Node [a] [l, r])) = tt_list n')
       \<or> (\<exists>n' l' k r'. insert_helper (Node [a] [l, r]) md = Ok (n', Some (Node [k] [l', r']))
            \<and> tt_inv (Suc d) (Some (filename k)) l' \<and> tt_inv (Suc d) U r' \<and> lt_bound (filename k) U
            \<and> ins_list md (tt_list (Node [a] [l, r])) = tt_list l' @ k # tt_list r')"
      using lt r k [of k]
      by (intro disjI1 exI[of _ "Node [k, a] [l1, r1, r]"])
         (simp add: insert_helper_node md_lt_def rbind_def ins_list_append_lt
            insert_into_internal_def list_insert_def)
  qed
qed


lemma ins_list_append_ge':
  "\<forall>x \<in> set xs. \<not> md_lt md x \<Longrightarrow> \<not> md_lt md a \<Longrightarrow>
   ins_list md (xs @ a # ys) = xs @ a # ins_list md ys"
  using ins_list_append_ge [of "xs @ [a]" md ys] by simp

lemma ins_node1_right:
  assumes child: "ins_result d U r md"
    and ge: "\<not> filename md < filename a" and l: "tt_inv d (Some (filename a)) l"
    and le: "\<forall>x \<in> set (tt_list l). filename x \<le> filename a"
    and re: "\<forall>x \<in> set (tt_list r). filename a \<le> filename x"
  shows "ins_result (Suc d) U (Node [a] [l, r]) md"
proof -
  have nl: "\<forall>x \<in> set (tt_list l). \<not> md_lt md x" using le ge by (auto simp: md_lt_def)
  have na: "\<not> md_lt md a" using ge by (simp add: md_lt_def)
  from child consider (same) r' where "insert_helper r md = Ok (r', None)" "tt_inv d U r'"
      "ins_list md (tt_list r) = tt_list r'"
    | (split) r' l1 k r1 where "insert_helper r md = Ok (r', Some (Node [k] [l1, r1]))"
      "tt_inv d (Some (filename k)) l1" "tt_inv d U r1" "lt_bound (filename k) U"
      "ins_list md (tt_list r) = tt_list l1 @ k # tt_list r1"
    unfolding ins_result_def by blast
  then show ?thesis
  proof cases
    case same
    show ?thesis unfolding ins_result_def
      by (intro disjI1 exI[of _ "Node [a] [l, r']"])
         (use same ge l nl na in \<open>simp add: insert_helper_node md_lt_def rbind_def ins_list_append_ge'\<close>)
  next
    case split
    have "k \<in> set (ins_list md (tt_list r))" by (simp only: split(5)) simp
    then have ka: "filename a \<le> filename k" using re ge by auto
    then have au: "lt_bound (filename a) U" using split(4) by (rule lt_bound_trans)
    show ?thesis unfolding ins_result_def
      by (intro disjI1 exI[of _ "Node [a, k] [l, l1, r1]"])
         (use split ge l nl na ka au in \<open>simp add: insert_helper_node md_lt_def rbind_def
            ins_list_append_ge' insert_into_internal_def list_insert_def\<close>)
  qed
qed

lemma ins_node2_left:
  assumes child: "ins_result d (Some (filename a)) l md"
    and lt: "filename md < filename a"
    and m: "tt_inv d (Some (filename b)) m" and r: "tt_inv d U r"
    and au: "lt_bound (filename a) U"
  shows "ins_result (Suc d) U (Node [a, b] [l, m, r]) md"
proof -
  from child consider (same) l' where "insert_helper l md = Ok (l', None)"
      "tt_inv d (Some (filename a)) l'" "ins_list md (tt_list l) = tt_list l'"
    | (split) l' l1 k r1 where "insert_helper l md = Ok (l', Some (Node [k] [l1, r1]))"
      "tt_inv d (Some (filename k)) l1" "tt_inv d (Some (filename a)) r1"
      "lt_bound (filename k) (Some (filename a))"
      "ins_list md (tt_list l) = tt_list l1 @ k # tt_list r1"
    unfolding ins_result_def by blast
  then show ?thesis
  proof cases
    case same
    show ?thesis unfolding ins_result_def
      by (intro disjI1 exI[of _ "Node [a, b] [l', m, r]"])
         (use same lt m r au in \<open>simp add: insert_helper_node md_lt_def rbind_def ins_list_append_lt\<close>)
  next
    case split
    show ?thesis unfolding ins_result_def
      by (intro disjI2 exI[of _ "Node [k, a, b] [l1, r1, m, r]"] exI[of _ "Node [k] [l1, r1]"]
            exI[of _ a] exI[of _ "Node [b] [m, r]"])
         (use split lt m r au in \<open>simp add: insert_helper_node md_lt_def rbind_def
            ins_list_append_lt insert_into_internal_def list_insert_def split_node_def is_leaf_t_def\<close>)
  qed
qed

lemma ins_node2_middle:
  assumes child: "ins_result d (Some (filename b)) m md"
    and ge: "\<not> filename md < filename a" and lt: "filename md < filename b"
    and l: "tt_inv d (Some (filename a)) l" and r: "tt_inv d U r"
    and au: "lt_bound (filename a) U" and bu: "le_bound (filename b) U"
    and le: "\<forall>x \<in> set (tt_list l). filename x \<le> filename a"
    and me: "\<forall>x \<in> set (tt_list m). filename a \<le> filename x"
  shows "ins_result (Suc d) U (Node [a, b] [l, m, r]) md"
proof -
  have nl: "\<forall>x \<in> set (tt_list l). \<not> md_lt md x" using le ge by (auto simp: md_lt_def)
  have na: "\<not> md_lt md a" using ge by (simp add: md_lt_def)
  have lb: "md_lt md b" using lt by (simp add: md_lt_def)
  have eq: "ins_list md (tt_list l @ a # tt_list m @ b # tt_list r)
      = tt_list l @ a # ins_list md (tt_list m) @ b # tt_list r"
    using nl na lb by (simp add: ins_list_append_ge' ins_list_append_lt)
  from child consider (same) m' where "insert_helper m md = Ok (m', None)"
      "tt_inv d (Some (filename b)) m'" "ins_list md (tt_list m) = tt_list m'"
    | (split) m' l1 k r1 where "insert_helper m md = Ok (m', Some (Node [k] [l1, r1]))"
      "tt_inv d (Some (filename k)) l1" "tt_inv d (Some (filename b)) r1"
      "lt_bound (filename k) (Some (filename b))"
      "ins_list md (tt_list m) = tt_list l1 @ k # tt_list r1"
    unfolding ins_result_def by blast
  then show ?thesis
  proof cases
    case same
    show ?thesis unfolding ins_result_def
      by (intro disjI1 exI[of _ "Node [a, b] [l, m', r]"])
         (use same ge lt l r au eq in \<open>simp add: insert_helper_node md_lt_def rbind_def\<close>)
  next
    case split
    have "k \<in> set (ins_list md (tt_list m))" by (simp only: split(5)) simp
    then have "filename a \<le> filename k" using me ge by auto
    then have ka: "\<not> filename k < filename a" by simp
    have kb: "filename k < filename b" using split(4) by simp
    have ku: "lt_bound (filename k) U" using kb bu by (rule lt_le_bound_trans)
    show ?thesis unfolding ins_result_def
      by (intro disjI2 exI[of _ "Node [a, k, b] [l, l1, r1, r]"] exI[of _ "Node [a] [l, l1]"]
            exI[of _ k] exI[of _ "Node [b] [r1, r]"])
         (use split ge lt l r au eq ka kb ku in \<open>simp add: insert_helper_node md_lt_def rbind_def
            insert_into_internal_def list_insert_def split_node_def is_leaf_t_def\<close>)
  qed
qed

lemma ins_node2_right:
  assumes child: "ins_result d U r md"
    and ge: "\<not> filename md < filename b" and ab: "filename a \<le> filename b"
    and l: "tt_inv d (Some (filename a)) l" and m: "tt_inv d (Some (filename b)) m"
    and le: "\<forall>x \<in> set (tt_list l). filename x \<le> filename a"
    and me: "\<forall>x \<in> set (tt_list m). filename x \<le> filename b"
    and re: "\<forall>x \<in> set (tt_list r). filename b \<le> filename x"
    and au: "lt_bound (filename a) U"
  shows "ins_result (Suc d) U (Node [a, b] [l, m, r]) md"
proof -
  have ga: "\<not> filename md < filename a" using ge ab by simp
  have nl: "\<forall>x \<in> set (tt_list l @ a # tt_list m). \<not> md_lt md x"
    using le me ge ab by (auto simp: md_lt_def)
  have nb: "\<not> md_lt md b" using ge by (simp add: md_lt_def)
  have eq: "ins_list md (tt_list l @ a # tt_list m @ b # tt_list r)
      = tt_list l @ a # tt_list m @ b # ins_list md (tt_list r)"
    using ins_list_append_ge' [OF nl nb, of "tt_list r"] by simp
  from child consider (same) r' where "insert_helper r md = Ok (r', None)" "tt_inv d U r'"
      "ins_list md (tt_list r) = tt_list r'"
    | (split) r' l1 k r1 where "insert_helper r md = Ok (r', Some (Node [k] [l1, r1]))"
      "tt_inv d (Some (filename k)) l1" "tt_inv d U r1" "lt_bound (filename k) U"
      "ins_list md (tt_list r) = tt_list l1 @ k # tt_list r1"
    unfolding ins_result_def by blast
  then show ?thesis
  proof cases
    case same
    show ?thesis unfolding ins_result_def
      by (intro disjI1 exI[of _ "Node [a, b] [l, m, r']"])
         (use same ge ga l m au eq in \<open>simp add: insert_helper_node md_lt_def rbind_def\<close>)
  next
    case split
    have "k \<in> set (ins_list md (tt_list r))" by (simp only: split(5)) simp
    then have kb: "filename b \<le> filename k" using re ge by auto
    then have bu: "lt_bound (filename b) U" using split(4) by (rule lt_bound_trans)
    have ka: "\<not> filename k < filename a" using kb ab by simp
    show ?thesis unfolding ins_result_def
      by (intro disjI2 exI[of _ "Node [a, b, k] [l, m, l1, r1]"] exI[of _ "Node [a] [l, m]"]
            exI[of _ b] exI[of _ "Node [k] [l1, r1]"])
         (use split ge ga l m eq ka kb bu in \<open>simp add: insert_helper_node md_lt_def rbind_def
            insert_into_internal_def list_insert_def split_node_def is_leaf_t_def\<close>)
  qed
qed

lemma insert_helper_ins_result:
  "tt_inv d U n \<Longrightarrow> sorted (map filename (tt_list n)) \<Longrightarrow> lt_bound (filename md) U \<Longrightarrow>
   \<forall>x \<in> set (tt_list n). le_bound (filename x) U \<Longrightarrow> ins_result d U n md"
proof (induction d arbitrary: n U)
  case 0
  then show ?case by simp
next
  case (Suc d)
  from Suc.prems(1) show ?case
  proof (cases rule: tt_inv_cases)
    case (L1 a)
    with Suc.prems(3) show ?thesis using ins_leaf1 [of md U a] by simp
  next
    case (L2 a b)
    with Suc.prems(2,3) show ?thesis using ins_leaf2 [of md U a b] by simp
  next
    case (N1 a l r d')
    then have d: "d = Suc d'" by simp
    from Suc.prems(2) N1(1) have
      sl: "sorted (map filename (tt_list l))" and sr: "sorted (map filename (tt_list r))"
      and le: "\<forall>x \<in> set (tt_list l). filename x \<le> filename a"
      and re: "\<forall>x \<in> set (tt_list r). filename a \<le> filename x"
      by (auto simp: sorted_append)
    from Suc.prems(4) N1(1) have au: "le_bound (filename a) U"
      and ru: "\<forall>x \<in> set (tt_list r). le_bound (filename x) U" by simp_all
    show ?thesis
    proof (cases "filename md < filename a")
      case True
      have "ins_result d (Some (filename a)) l md"
        using N1(3) sl True le unfolding d by (intro Suc.IH [unfolded d]) simp_all
      then show ?thesis using True N1(4) au unfolding N1(1) d by (intro ins_node1_left) simp_all
    next
      case False
      have "ins_result d U r md"
        using N1(4) sr Suc.prems(3) ru unfolding d by (intro Suc.IH [unfolded d]) simp_all
      then show ?thesis using False N1(3) le re unfolding N1(1) d by (intro ins_node1_right) simp_all
    qed
  next
    case (N2 a b l m r d')
    then have d: "d = Suc d'" by simp
    from Suc.prems(2) N2(1) have
      sl: "sorted (map filename (tt_list l))" and sm: "sorted (map filename (tt_list m))"
      and sr: "sorted (map filename (tt_list r))"
      and le: "\<forall>x \<in> set (tt_list l). filename x \<le> filename a"
      and me: "\<forall>x \<in> set (tt_list m). filename a \<le> filename x"
      and me': "\<forall>x \<in> set (tt_list m). filename x \<le> filename b"
      and re: "\<forall>x \<in> set (tt_list r). filename b \<le> filename x"
      and ab: "filename a \<le> filename b"
      by (auto simp: sorted_append)
    from Suc.prems(4) N2(1) have bu: "le_bound (filename b) U"
      and ru: "\<forall>x \<in> set (tt_list r). le_bound (filename x) U" by simp_all
    show ?thesis
    proof (cases "filename md < filename a")
      case True
      have "ins_result d (Some (filename a)) l md"
        using N2(4) sl True le unfolding d by (intro Suc.IH [unfolded d]) simp_all
      then show ?thesis using True N2(3,5,6) unfolding N2(1) d by (intro ins_node2_left) simp_all
    next
      case False
      show ?thesis
      proof (cases "filename md < filename b")
        case True
        have "ins_result d (Some (filename b)) m md"
          using N2(5) sm True me' unfolding d by (intro Suc.IH [unfolded d]) simp_all
        then show ?thesis using True False N2(3,4,6) bu le me unfolding N2(1) d
          by (intro ins_node2_middle) simp_all
      next
        case nb: False
        have "ins_result d U r md"
          using N2(6) sr Suc.prems(3) ru unfolding d by (intro Suc.IH [unfolded d]) simp_all
        then show ?thesis using nb ab N2(3,4,5) le me' re unfolding N2(1) d
          by (intro ins_node2_right) simp_all
      qed
    qed
  qed
qed

lemma inorder_traversal_tt_list:
  "tt_inv d U n \<Longrightarrow> inorder_traversal n = Ok (tt_list n)"
proof (induction d arbitrary: n U)
  case 0
  then show ?case by simp
next
  case (Suc d)
  from Suc.prems show ?case
  proof (cases rule: tt_inv_cases)
    case (L1 a)
    then show ?thesis by simp
  next
    case (L2 a b)
    then show ?thesis by simp
  next
    case (N1 a l r d')
    with Suc.IH [of "Some (filename a)" l] Suc.IH [of U r] show ?thesis
      by (simp add: rbind_def)
  next
    case (N2 a b l m r d')
    with Suc.IH [of "Some (filename a)" l] Suc.IH [of "Some (filename b)" m] Suc.IH [of U r]
    show ?thesis by (simp add: rbind_def)
  qed
qed

lemma tt_inv_path_nodes: "tt_inv d U n \<Longrightarrow> tt_path_nodes d n"
proof (induction d arbitrary: n U)
  case 0
  then show ?case by simp
next
  case (Suc d)
  from Suc.prems show ?case
  proof (cases rule: tt_inv_cases)
    case (L1 a)
    then show ?thesis by (simp add: is_leaf_t_def)
  next
    case (L2 a b)
    then show ?thesis by (simp add: is_leaf_t_def)
  next
    case (N1 a l r d')
    with Suc.IH [of "Some (filename a)" l] Suc.IH [of U r] show ?thesis
      by (simp add: is_leaf_t_def)
  next
    case (N2 a b l m r d')
    with Suc.IH [of "Some (filename a)" l] Suc.IH [of "Some (filename b)" m] Suc.IH [of U r]
    show ?thesis by (simp add: is_leaf_t_def)
  qed
qed

definition tt_items :: "TwoThreeTree \<Rightarrow> FileMetadata list" where
  "tt_items st = (case root_t st of None \<Rightarrow> [] | Some r \<Rightarrow> tt_list r)"

definition tt_ok :: "TwoThreeTree \<Rightarrow> bool" where
  "tt_ok st \<longleftrightarrow>
     tag_wf st
     \<and> (case root_t st of
          None \<Rightarrow> height_t st = 0
        | Some r \<Rightarrow> tt_inv (height_t st) None r \<and> sorted (map filename (tt_list r)))
     \<and> size_t st = length (tt_items st)"

text \<open>The root node splits during \<^verbatim>\<open>insert\<close>: \<^verbatim>\<open>_insert_helper\<close> hands back a carrier.\<close>

definition tt_root_splits :: "TwoThreeTree \<Rightarrow> FileMetadata \<Rightarrow> bool" where
  "tt_root_splits st md =
     (case root_t st of
        None \<Rightarrow> False
      | Some r \<Rightarrow> (case insert_helper r md of Ok (r1, Some c) \<Rightarrow> True | _ \<Rightarrow> False))"

lemma tt_ok_init: "tt_ok tt_init"
  by (simp add: tt_ok_def tt_init_def tt_items_def tag_wf_def)

lemma tt_update_tag_index_fields:
  fixes st :: TwoThreeTree
  shows "root_t (update_tag_index st md) = root_t st"
    and "size_t (update_tag_index st md) = size_t st"
    and "height_t (update_tag_index st md) = height_t st"
proof -
  obtain ti ls nr where "update_tag_index st md = st\<lparr>tag_index := ti, list_objs := ls, next_ref := nr\<rparr>"
    using update_tag_index_frame by blast
  then show "root_t (update_tag_index st md) = root_t st"
    and "size_t (update_tag_index st md) = size_t st"
    and "height_t (update_tag_index st md) = height_t st" by simp_all
qed

lemma tt_insert_ok:
  assumes ok: "tt_ok st"
  shows "\<exists>st'. tt_insert st md = Ok st' \<and> tt_ok st'
      \<and> tt_items st' = ins_list md (tt_items st)
      \<and> size_t st' = size_t st + 1
      \<and> height_t st' = (if root_t st = None \<or> tt_root_splits st md then height_t st + 1 else height_t st)
      \<and> (\<forall>t. tag_contents st' t = tag_contents st t @ replicate (count_list (tags md) t) md)"
proof -
  from ok have wf: "tag_wf st" and sz: "size_t st = length (tt_items st)" by (simp_all add: tt_ok_def)
  have fin: "\<exists>st'. tt_insert st md = Ok st' \<and> tt_ok st'
      \<and> tt_items st' = ins_list md (tt_items st)
      \<and> size_t st' = size_t st + 1
      \<and> height_t st' = h
      \<and> (\<forall>t. tag_contents st' t = tag_contents st t @ replicate (count_list (tags md) t) md)"
    if run: "tt_insert st md = Ok (update_tag_index (st\<lparr>root_t := Some r', height_t := h, size_t := size_t st + 1\<rparr>) md)"
      and inv: "tt_inv h None r'" and l: "tt_list r' = ins_list md (tt_items st)"
      and so: "sorted (map filename (tt_items st))"
    for r' h
  proof -
    let ?s1 = "st\<lparr>root_t := Some r', height_t := h, size_t := size_t st + 1\<rparr>"
    have wf1: "tag_wf ?s1" using wf by (simp add: tag_wf_def)
    have tc: "tag_contents ?s1 t = tag_contents st t" for t
      by (simp add: tag_contents_def cong: option.case_cong)
    have "tt_ok (update_tag_index ?s1 md)"
      using update_tag_index_wf [OF wf1] inv l sz sorted_ins_list [OF so, of md]
      by (simp add: tt_ok_def tt_update_tag_index_fields tt_items_def)
    moreover have "tt_items (update_tag_index ?s1 md) = ins_list md (tt_items st)"
      using l by (simp add: tt_items_def tt_update_tag_index_fields)
    ultimately show ?thesis
      using run update_tag_index_contents [OF wf1, of md] tc
      by (intro exI[of _ "update_tag_index ?s1 md"]) (simp add: tt_update_tag_index_fields)
  qed
  show ?thesis
  proof (cases "root_t st")
    case None
    have "tt_insert st md = Ok (update_tag_index (st\<lparr>root_t := Some (Node [md] []), height_t := 1,
        size_t := size_t st + 1\<rparr>) md)"
      using None by (simp add: tt_insert_def rbind_def)
    from fin [OF this] None ok show ?thesis
      by (simp add: tt_items_def tt_ok_def tt_root_splits_def)
  next
    case (Some r)
    with ok have inv: "tt_inv (height_t st) None r" and so: "sorted (map filename (tt_list r))"
      by (simp_all add: tt_ok_def)
    have so': "sorted (map filename (tt_items st))" using so Some by (simp add: tt_items_def)
    have "ins_result (height_t st) None r md"
      using inv so by (intro insert_helper_ins_result) simp_all
    then consider (same) r' where "insert_helper r md = Ok (r', None)" "tt_inv (height_t st) None r'"
        "ins_list md (tt_list r) = tt_list r'"
      | (split) r' l k r1 where "insert_helper r md = Ok (r', Some (Node [k] [l, r1]))"
        "tt_inv (height_t st) (Some (filename k)) l" "tt_inv (height_t st) None r1"
        "ins_list md (tt_list r) = tt_list l @ k # tt_list r1"
      unfolding ins_result_def by blast
    then show ?thesis
    proof cases
      case same
      have "tt_insert st md = Ok (update_tag_index (st\<lparr>root_t := Some r', height_t := height_t st,
          size_t := size_t st + 1\<rparr>) md)"
        using Some same(1) by (simp add: tt_insert_def rbind_def)
      from fin [OF this same(2) _ so'] same(3) Some same(1) show ?thesis
        by (simp add: tt_items_def tt_root_splits_def)
    next
      case split
      have "tt_insert st md = Ok (update_tag_index (st\<lparr>root_t := Some (Node [k] [l, r1]),
          height_t := height_t st + 1, size_t := size_t st + 1\<rparr>) md)"
        using Some split(1) by (simp add: tt_insert_def rbind_def)
      from fin [OF this _ _ so'] split Some show ?thesis
        by (simp add: tt_items_def tt_root_splits_def)
    qed
  qed
qed

lemma tt_inserts_ok:
  assumes "tt_ok st0"
  shows "\<exists>st. tt_inserts st0 mds = Ok st \<and> tt_ok st
      \<and> mset (tt_items st) = mset (tt_items st0) + mset mds
      \<and> size_t st = size_t st0 + length mds
      \<and> (\<forall>t. tag_contents st t = tag_contents st0 t @ concat (map (\<lambda>r. replicate (count_list (tags r) t) r) mds))"
  using assms unfolding tt_inserts_def
proof (induction mds arbitrary: st0)
  case Nil
  then show ?case by simp
next
  case (Cons md mds)
  from tt_insert_ok [OF Cons.prems, of md] obtain s1 where
    s1: "tt_insert st0 md = Ok s1" "tt_ok s1" "tt_items s1 = ins_list md (tt_items st0)"
      "size_t s1 = size_t st0 + 1"
      "\<forall>t. tag_contents s1 t = tag_contents st0 t @ replicate (count_list (tags md) t) md" by blast
  from Cons.IH [OF s1(2)] obtain st where
    st: "result_fold tt_insert s1 mds = Ok st" "tt_ok st"
      "mset (tt_items st) = mset (tt_items s1) + mset mds" "size_t st = size_t s1 + length mds"
      "\<forall>t. tag_contents st t = tag_contents s1 t @ concat (map (\<lambda>r. replicate (count_list (tags r) t) r) mds)"
    by blast
  show ?case using s1 st by (intro exI[of _ st]) simp
qed

lemma tt_list_files_ok:
  assumes "tt_ok st"
  shows "tt_list_files st ''asc'' = Ok (tt_items st)"
    and "tt_list_files st ''desc'' = Ok (rev (tt_items st))"
    and "sorted (map filename (tt_items st))"
proof -
  show "tt_list_files st ''asc'' = Ok (tt_items st)"
    using assms inorder_traversal_tt_list
    by (auto simp: tt_list_files_def tt_ok_def tt_items_def rbind_def split: option.splits)
  show "tt_list_files st ''desc'' = Ok (rev (tt_items st))"
    using assms inorder_traversal_tt_list
    by (auto simp: tt_list_files_def tt_ok_def tt_items_def rbind_def split: option.splits)
  show "sorted (map filename (tt_items st))"
    using assms by (auto simp: tt_ok_def tt_items_def split: option.splits)
qed

section \<open>Facts about the sample data\<close>

lemma table0_ok: "ht_inv len_hash (ht_init 4 (3 / 4))" "0 < load_factor (ht_init 4 (3 / 4))"
  using ht_ok_init [of 4 "3 / 4" len_hash] by (simp_all add: ht_ok_def)

lemma table0_buckets: "buckets (ht_init 4 (3 / 4)) = [[], [], [], []]"
  by (simp add: ht_init_def numeral_eq_Suc)

lemma table0_idx:
  "nat (len_hash (filename (sample ''a.txt'' w ts)) mod int (capacity (ht_init 4 (3 / 4)))) = 1"
  by (simp add: len_hash_def sample_def ht_init_def)

lemma table1_ok: "ht_inv len_hash table1" "0 < load_factor table1"
proof -
  have "filename (sample ''a.txt'' ''alice'' [''work'']) \<notin> filename ` set (concat (buckets (ht_init 4 (3 / 4))))"
    by (simp add: table0_buckets)
  from ht_inv_append(1) [OF table0_ok(1) this table0_idx [symmetric]]
  show "ht_inv len_hash table1"
    by (simp add: table0_buckets) (simp add: ht_init_def table1_def)
  show "0 < load_factor table1" by (simp add: table1_def)
qed

lemma table1_idx:
  "nat (len_hash (filename (sample ''a.txt'' w ts)) mod int (capacity table1)) = 1"
  by (simp add: len_hash_def sample_def table1_def)

lemma table_small_inv: "ht_inv len_hash (ht_init 1 (3 / 4))" and table_small_lf: "0 < load_factor (ht_init 1 (3 / 4))"
  using ht_ok_init [of 1 "3 / 4" len_hash] by (simp_all add: ht_ok_def)

lemma float_div_1_1: "float_div 1 1 = 1" "float_div (Suc 0) (Suc 0) = 1"
  using round_double_ratI [of 1 "2 ^ 52" "- 52" 1 "2 ^ 52"]
  by (simp_all add: float_div_def power_int_minus)

lemma float_div_1_2: "float_div 1 2 = 1 / 2" "float_div (Suc 0) 2 = 1 / 2"
  using round_double_ratI [of 1 "2 ^ 52" "- 53" "1 / 2" "2 ^ 52"]
  by (simp_all add: float_div_def power_int_minus)

lemma float_div_1_4: "float_div 1 4 = 1 / 4" "float_div (Suc 0) 4 = 1 / 4"
  using round_double_ratI [of 1 "2 ^ 52" "- 54" "1 / 4" "2 ^ 52"]
  by (simp_all add: float_div_def power_int_minus)

lemma float_div_4_4: "float_div 4 4 = 1"
  using round_double_ratI [of 1 "2 ^ 52" "- 52" 1 "2 ^ 52"]
  by (simp add: float_div_def power_int_minus)

lemma float_div_4_8: "float_div 4 8 = 1 / 2"
  using round_double_ratI [of 1 "2 ^ 52" "- 53" "1 / 2" "2 ^ 52"]
  by (simp add: float_div_def power_int_minus)

lemma float_div_3_10: "float_div 3 10 = 5404319552844595 / 18014398509481984"
  using round_double_ratI [of 10 "3 * 2 ^ 54" "- 54" "3 / 10" 5404319552844595]
  by (simp add: float_div_def power_int_minus)

lemma float_div_unary:
  "float_div (Suc 0) (Suc (Suc 0)) = 1 / 2"
  "float_div (Suc 0) (Suc (Suc (Suc (Suc 0)))) = 1 / 4"
  using float_div_1_2(1) float_div_1_4(1) by (simp_all add: eval_nat_numeral)

lemma round_double_3_4: "round_double (3 / 4) = 3 / 4"
  using round_double_ratI [of 4 "3 * 2 ^ 53" "- 53" "3 / 4" "3 * 2 ^ 51"]
  by (simp add: power_int_minus)

lemma table3_ok: "ht_inv len_hash table3" "0 < load_factor table3"
  by (auto simp: ht_inv_def table3_def len_hash_def sample_def nth_Cons' less_Suc_eq
      eval_nat_numeral)

lemma table3_new:
  "filename (sample ''dddd.txt'' ''dan'' [''work'']) \<notin> filename ` set (concat (buckets table3))"
  by (simp add: table3_def sample_def)

text \<open>
  The test of \<^verbatim>\<open>_insert_no_lock\<close> is on doubles: the third \<^verbatim>\<open>insert\<close> into
  \<^verbatim>\<open>HashTableIndex(10, 0.3)\<close> computes \<^verbatim>\<open>3 / 10\<close>, which is the double \<^verbatim>\<open>0.3\<close> itself,
  and does not resize, although 3/10 exceeds the rational that this double denotes.
\<close>

lemma ht_insert_threshold_on_doubles:
  "map_result (\<lambda>st. (ht_get_capacity st, ht_get_size st))
     (ht_insert len_hash 1 table10 (sample ''ccc.txt'' ''carol'' [])) = Ok (10, 3)
   \<and> load_factor table10 < 3 / 10"
  by (simp add: ht_insert_def ht_insert_no_lock.simps ht_hash_def table10_def sample_def
      len_hash_def Let_def ht_get_capacity_def ht_get_size_def ht_update_tag_index_fields
      update_tag_index_def float_div_3_10)

section \<open>Claims\<close>

text \<open>
  C10.  For every backend, \<^verbatim>\<open>search_by_tag\<close> is read-only.  In a state whose tag
  index refers to existing list objects (\<open>tag_wf\<close>, which every state built by
  \<^verbatim>\<open>insert\<close> satisfies), a search for any tag, present or absent, leaves the
  dictionary without a new entry, leaves every other field of the structure and every
  existing list object as it was, and returns a new list object: whatever the caller
  writes into it, the sequences held by the index stay the same.
\<close>

theorem C10_search_by_tag_read_only:
  fixes hs :: HashTableIndex and ts :: TwoThreeTree and bs :: BPlusTree
  assumes "tag_wf hs" and "tag_wf ts" and "tag_wf bs"
  shows "tag_search_read_only ht_search_by_tag hs tag
       \<and> tag_search_read_only tt_search_by_tag ts tag
       \<and> tag_search_read_only bp_search_by_tag bs tag"
proof -
  have "ht_search_by_tag = search_by_tag" "tt_search_by_tag = search_by_tag"
    "bp_search_by_tag = search_by_tag"
    by (simp_all add: fun_eq_iff ht_search_by_tag_def tt_search_by_tag_def bp_search_by_tag_def)
  with assms show ?thesis by (simp add: search_by_tag_read_only)
qed

theorem C10_search_by_tag_read_only_witness:
  "tag_search_read_only ht_search_by_tag
     (update_tag_index (ht_init 4 (3 / 4)) (sample ''a.txt'' ''alice'' [''work'', ''draft''])) ''archive''
   \<and> tag_search_read_only tt_search_by_tag
     (update_tag_index tt_init (sample ''a.txt'' ''alice'' [''work'', ''draft''])) ''archive''
   \<and> tag_search_read_only bp_search_by_tag
     (update_tag_index (bp_init 4) (sample ''a.txt'' ''alice'' [''work'', ''draft''])) ''archive''"
proof -
  have 1: "tag_wf (update_tag_index (ht_init 4 (3 / 4)) (sample ''a.txt'' ''alice'' [''work'', ''draft'']))"
    by (rule update_tag_index_wf) (simp add: tag_wf_init ht_init_def)
  have 2: "tag_wf (update_tag_index tt_init (sample ''a.txt'' ''alice'' [''work'', ''draft'']))"
    by (rule update_tag_index_wf) (simp add: tag_wf_init tt_init_def)
  have 3: "tag_wf (update_tag_index (bp_init 4) (sample ''a.txt'' ''alice'' [''work'', ''draft'']))"
    by (rule update_tag_index_wf) (simp add: tag_wf_init bp_init_def)
  show ?thesis by (rule C10_search_by_tag_read_only [OF 1 2 3])
qed

text \<open>
  C2.  Hash table, in a well-formed table with a positive load factor.  When the bucket of
  the record's filename already holds a record with that filename, \<^verbatim>\<open>insert\<close>
  overwrites the first such record in place: no other bucket entry changes, the size and
  the capacity stay the same, and any positive budget suffices, so no resize runs.  When
  the bucket holds no such record, \<^verbatim>\<open>insert\<close> returns with the size one larger
  and the record stored in the bucket of its filename; when the load threshold is not
  exceeded, that bucket is the old bucket with the record appended and the capacity is
  unchanged.  The threshold is not exceeded when the double \<^verbatim>\<open>size / capacity\<close> is not
  above the load factor, and so, the load factor being a double, whenever the exact
  quotient is not above it.
\<close>

theorem C2_hash_insert_update_or_append:
  assumes inv: "ht_inv hf st" and lf: "0 < load_factor st"
  shows "(filename md \<in> filename ` set (buckets st ! nat (hf (filename md) mod int (capacity st))) \<longrightarrow>
           (\<exists>i st'. i < length (buckets st ! nat (hf (filename md) mod int (capacity st)))
              \<and> filename (buckets st ! nat (hf (filename md) mod int (capacity st)) ! i) = filename md
              \<and> (\<forall>fuel > 0. ht_insert hf fuel st md = Ok st')
              \<and> buckets st' = (buckets st)[nat (hf (filename md) mod int (capacity st)) :=
                    (buckets st ! nat (hf (filename md) mod int (capacity st)))[i := md]]
              \<and> ht_get_size st' = ht_get_size st \<and> ht_get_capacity st' = ht_get_capacity st))
       \<and> (filename md \<notin> filename ` set (buckets st ! nat (hf (filename md) mod int (capacity st))) \<longrightarrow>
           (\<exists>fuel0 st'. (\<forall>fuel \<ge> fuel0. ht_insert hf fuel st md = Ok st')
              \<and> ht_get_size st' = ht_get_size st + 1
              \<and> md \<in> set (buckets st' ! nat (hf (filename md) mod int (capacity st')))
              \<and> (\<not> load_factor st < float_div (size_h st + 1) (capacity st)
                 \<or> (round_double (load_factor st) = load_factor st
                    \<and> \<not> load_factor st < of_nat (size_h st + 1) / of_nat (capacity st)) \<longrightarrow>
                   ht_get_capacity st' = ht_get_capacity st
                 \<and> buckets st' = (buckets st)[nat (hf (filename md) mod int (capacity st)) :=
                      buckets st ! nat (hf (filename md) mod int (capacity st)) @ [md]])))"
proof (intro conjI impI)
  let ?idx = "nat (hf (filename md) mod int (capacity st))"
  from inv have c: "0 < capacity st" "length (buckets st) = capacity st" by (simp_all add: ht_inv_def)
  {
    assume ex: "filename md \<in> filename ` set (buckets st ! ?idx)"
    from ex obtain b where b: "bucket_replace (buckets st ! ?idx) md = Some b"
      using bucket_replace_None [of "buckets st ! ?idx" md]
      by (cases "bucket_replace (buckets st ! ?idx) md") auto
    from bucket_replace_Some [OF b] obtain i where
      i: "i < length (buckets st ! ?idx)" "b = (buckets st ! ?idx)[i := md]"
         "filename (buckets st ! ?idx ! i) = filename md" by blast
    have lt: "?idx < length (buckets st)" using c by (simp add: hash_idx_lt)
    let ?st' = "update_tag_index (st\<lparr>buckets := (buckets st)[?idx := b]\<rparr>) md"
    have run: "\<forall>fuel > 0. ht_insert hf fuel st md = Ok ?st'"
    proof (intro allI impI)
      fix fuel :: nat assume "0 < fuel"
      then obtain n where "fuel = Suc n" by (cases fuel) auto
      then show "ht_insert hf fuel st md = Ok ?st'"
        using c lt b by (simp add: ht_insert_def ht_insert_no_lock.simps ht_hash_def)
    qed
    show "\<exists>i st'. i < length (buckets st ! ?idx)
              \<and> filename (buckets st ! ?idx ! i) = filename md
              \<and> (\<forall>fuel > 0. ht_insert hf fuel st md = Ok st')
              \<and> buckets st' = (buckets st)[?idx := (buckets st ! ?idx)[i := md]]
              \<and> ht_get_size st' = ht_get_size st \<and> ht_get_capacity st' = ht_get_capacity st"
      using i run
      by (intro exI[of _ i] exI[of _ ?st'])
         (simp add: ht_update_tag_index_fields ht_get_size_def ht_get_capacity_def)
  }
  {
    assume nex: "filename md \<notin> filename ` set (buckets st ! ?idx)"
    have new: "filename md \<notin> filename ` set (concat (buckets st))"
      using inv nex by (rule ht_inv_new_filename)
    from ht_insert_no_lock_new_total [OF inv lf new] obtain fuel0 s1 where
      s: "\<forall>fuel \<ge> fuel0. ht_insert_no_lock hf fuel st md = Ok s1" "ht_inv hf s1" "ht_frame st s1"
         "mset (concat (buckets s1)) = mset (concat (buckets st)) + {#md#}"
      by blast
    let ?st' = "update_tag_index s1 md"
    have run: "\<forall>fuel \<ge> fuel0. ht_insert hf fuel st md = Ok ?st'"
      using s(1) by (simp add: ht_insert_def)
    have sz: "size_h s1 = size_h st + 1"
      using ht_inv_size [OF s(2)] ht_inv_size [OF inv] s(4) by simp
    have "md \<in># mset (concat (buckets s1))" using s(4) by simp
    then have "md \<in> set (concat (buckets s1))" by simp
    then have mem: "md \<in> set (buckets s1 ! nat (hf (filename md) mod int (capacity s1)))"
      using s(2) by (intro ht_inv_bucket_of)
    have noresize: "capacity s1 = capacity st \<and> buckets s1 = (buckets st)[?idx := buckets st ! ?idx @ [md]]"
      if t: "\<not> load_factor st < float_div (size_h st + 1) (capacity st)
           \<or> (round_double (load_factor st) = load_factor st
              \<and> \<not> load_factor st < of_nat (size_h st + 1) / of_nat (capacity st))"
    proof -
      have "fits (load_factor st) (size_h st + 1) (capacity st)"
      proof (cases "\<not> load_factor st < float_div (size_h st + 1) (capacity st)")
        case True
        then show ?thesis by (simp add: fits_def)
      next
        case False
        with t have "round_double (load_factor st) = load_factor st"
          "of_nat (size_h st + 1) / of_nat (capacity st) \<le> load_factor st" by simp_all
        then show ?thesis by (rule fits_exact)
      qed
      then have "\<not> load_factor st < float_div (size_h st + 1) (capacity st)"
        by (simp add: fits_def)
      then have "ht_insert_no_lock hf (Suc fuel0) st md
          = Ok (st\<lparr>buckets := (buckets st)[?idx := buckets st ! ?idx @ [md]], size_h := size_h st + 1\<rparr>)"
        by (simp add: ht_insert_no_lock_new [OF inv new] Let_def)
      with s(1) show ?thesis by simp
    qed
    show "\<exists>fuel0 st'. (\<forall>fuel \<ge> fuel0. ht_insert hf fuel st md = Ok st')
              \<and> ht_get_size st' = ht_get_size st + 1
              \<and> md \<in> set (buckets st' ! nat (hf (filename md) mod int (capacity st')))
              \<and> (\<not> load_factor st < float_div (size_h st + 1) (capacity st)
                 \<or> (round_double (load_factor st) = load_factor st
                    \<and> \<not> load_factor st < of_nat (size_h st + 1) / of_nat (capacity st)) \<longrightarrow>
                   ht_get_capacity st' = ht_get_capacity st
                 \<and> buckets st' = (buckets st)[?idx := buckets st ! ?idx @ [md]])"
      using run sz mem noresize
      by (intro exI[of _ fuel0] exI[of _ ?st'])
         (simp add: ht_update_tag_index_fields ht_get_size_def ht_get_capacity_def)
  }
qed

theorem C2_hash_insert_update_or_append_witness:
  "(\<exists>fuel0 st'. (\<forall>fuel \<ge> fuel0. ht_insert len_hash fuel (ht_init 4 (3 / 4)) (sample ''a.txt'' ''alice'' [''work'']) = Ok st')
      \<and> ht_get_size st' = 1 \<and> ht_get_capacity st' = 4
      \<and> buckets st' = [[], [sample ''a.txt'' ''alice'' [''work'']], [], []])
   \<and> (\<exists>st'. (\<forall>fuel > 0. ht_insert len_hash fuel table1 (sample ''a.txt'' ''bob'' []) = Ok st')
      \<and> ht_get_size st' = 1 \<and> ht_get_capacity st' = 4
      \<and> buckets st' = [[], [sample ''a.txt'' ''bob'' []], [], []])"
proof
  show "\<exists>fuel0 st'. (\<forall>fuel \<ge> fuel0. ht_insert len_hash fuel (ht_init 4 (3 / 4)) (sample ''a.txt'' ''alice'' [''work'']) = Ok st')
      \<and> ht_get_size st' = 1 \<and> ht_get_capacity st' = 4
      \<and> buckets st' = [[], [sample ''a.txt'' ''alice'' [''work'']], [], []]"
    using C2_hash_insert_update_or_append [OF table0_ok, of "sample ''a.txt'' ''alice'' [''work'']"]
    unfolding table0_idx table0_buckets
    apply (simp add: ht_get_size_def ht_get_capacity_def)
    apply (simp add: ht_init_def float_div_1_4)
    apply blast
    done
  have "filename (sample ''a.txt'' ''bob'' []) \<in> filename ` set (buckets table1 ! 1)"
    by (simp add: table1_def sample_def)
  with C2_hash_insert_update_or_append [OF table1_ok, of "sample ''a.txt'' ''bob'' []"]
  obtain i st' where
    a: "i < length (buckets table1 ! 1)" "\<forall>fuel > 0. ht_insert len_hash fuel table1 (sample ''a.txt'' ''bob'' []) = Ok st'"
      "buckets st' = (buckets table1)[1 := (buckets table1 ! 1)[i := sample ''a.txt'' ''bob'' []]]"
      "ht_get_size st' = ht_get_size table1" "ht_get_capacity st' = ht_get_capacity table1"
    unfolding table1_idx by blast
  from a(1) have "i = 0" by (simp add: table1_def)
  with a(2-5) show "\<exists>st'. (\<forall>fuel > 0. ht_insert len_hash fuel table1 (sample ''a.txt'' ''bob'' []) = Ok st')
      \<and> ht_get_size st' = 1 \<and> ht_get_capacity st' = 4
      \<and> buckets st' = [[], [sample ''a.txt'' ''bob'' []], [], []]"
    by (intro exI[of _ st']) (simp add: table1_def ht_get_size_def ht_get_capacity_def)
qed

text \<open>
  C5, as stated, fails: in \<^verbatim>\<open>HashTableIndex(1, 0.3)\<close> the first \<^verbatim>\<open>insert\<close> leaves
  the capacity at 4, not 2, because the reinsertion inside \<^verbatim>\<open>_resize\<close> exceeds the
  threshold again (1 / 2 is above 0.3) and resizes a second time.
\<close>

theorem C5_hash_resize_counterexample:
  "map_result ht_get_capacity
     (ht_insert len_hash 3 (ht_init 1 (float_div 3 10)) (sample ''a.txt'' ''alice'' [''work''])) = Ok 4
   \<and> ht_get_capacity (ht_init 1 (float_div 3 10)) = 1"
  apply (simp only: float_div_3_10)
  apply (simp add: ht_insert_def ht_insert_no_lock.simps eval_nat_numeral ht_init_def ht_hash_def
      ht_resize_with_def sample_def len_hash_def Let_def ht_get_capacity_def
      ht_update_tag_index_fields float_div_1_1 float_div_unary)
  done

text \<open>
  C5, amended.  In a well-formed table with a positive load factor, an \<^verbatim>\<open>insert\<close> of
  a new filename that makes \<^verbatim>\<open>size / capacity\<close>, the double that Python computes,
  exceed the load factor returns, within the same call, a table whose capacity is the old
  one doubled \<open>k \<ge> 1\<close> times, where \<open>k\<close> is the least number of doublings after
  which the double \<^verbatim>\<open>(size + 1) / capacity\<close> no longer exceeds the load factor (so exactly
  one doubling when it does not at twice the capacity).  The new bucket array has the new
  capacity, every record lies in the bucket of its filename under the new capacity, the
  size is the old size plus one, the stored records are the old ones and the new one, and
  every record stored before, and the new one, is returned by \<^verbatim>\<open>search_by_filename\<close>.
\<close>

theorem C5_hash_resize:
  assumes inv: "ht_inv hf st" and lf: "0 < load_factor st"
    and new: "filename md \<notin> filename ` set (concat (buckets st))"
    and over: "load_factor st < float_div (size_h st + 1) (capacity st)"
  shows "\<exists>fuel0 st' k. (\<forall>fuel \<ge> fuel0. ht_insert hf fuel st md = Ok st')
      \<and> 1 \<le> k \<and> ht_get_capacity st' = 2 ^ k * ht_get_capacity st
      \<and> \<not> load_factor st < float_div (size_h st + 1) (2 ^ k * capacity st)
      \<and> (\<forall>j < k. load_factor st < float_div (size_h st + 1) (2 ^ j * capacity st))
      \<and> (\<not> load_factor st < float_div (size_h st + 1) (2 * capacity st) \<longrightarrow> k = 1)
      \<and> length (buckets st') = capacity st'
      \<and> (\<forall>i < length (buckets st'). \<forall>m \<in> set (buckets st' ! i).
            nat (hf (filename m) mod int (capacity st')) = i)
      \<and> ht_get_size st' = ht_get_size st + 1
      \<and> mset (concat (buckets st')) = mset (concat (buckets st)) + {#md#}
      \<and> (\<forall>r \<in> set (concat (buckets st)). ht_search_by_filename hf st' (filename r) = Ok (Some r))
      \<and> ht_search_by_filename hf st' (filename md) = Ok (Some md)"
proof -
  from inv have c: "0 < capacity st" by (simp add: ht_inv_def)
  from ht_resize_growth [OF inv lf new over] obtain fuel0 s1 k where
    s: "\<forall>fuel \<ge> fuel0. ht_insert_no_lock hf fuel st md = Ok s1" "1 \<le> k"
      "capacity s1 = 2 ^ k * capacity st"
      "fits (load_factor st) (size_h st + 1) (2 ^ k * capacity st)"
      "\<not> fits (load_factor st) (size_h st + 1) (2 ^ (k - 1) * capacity st)"
      "ht_inv hf s1" "ht_frame st s1"
      "mset (concat (buckets s1)) = mset (concat (buckets st)) + {#md#}" by blast
  let ?st' = "update_tag_index s1 md"
  have run: "\<forall>fuel \<ge> fuel0. ht_insert hf fuel st md = Ok ?st'"
    using s(1) by (simp add: ht_insert_def)
  have inv': "ht_inv hf ?st'" using s(6) by (simp add: ht_inv_update_tag_index)
  have sz: "size_h s1 = size_h st + 1"
    using ht_inv_size [OF s(6)] ht_inv_size [OF inv] s(8) by simp
  have fit: "\<not> load_factor st < float_div (size_h st + 1) (2 ^ k * capacity st)"
    using s(4) by (simp add: fits_def)
  have below: "load_factor st < float_div (size_h st + 1) (2 ^ j * capacity st)" if j: "j < k" for j
  proof (rule ccontr)
    assume "\<not> load_factor st < float_div (size_h st + 1) (2 ^ j * capacity st)"
    then have f: "fits (load_factor st) (size_h st + 1) (2 ^ j * capacity st)"
      by (simp add: fits_def)
    have p: "0 < 2 ^ j * capacity st" using c by simp
    from j have "j \<le> k - 1" by simp
    then have "(2::nat) ^ j \<le> 2 ^ (k - 1)" by (intro power_increasing) simp_all
    then have le: "2 ^ j * capacity st \<le> 2 ^ (k - 1) * capacity st" by simp
    from f p le have "fits (load_factor st) (size_h st + 1) (2 ^ (k - 1) * capacity st)"
      by (rule fits_mono_cap)
    with s(5) show False by simp
  qed
  have once: "k = 1" if b: "\<not> load_factor st < float_div (size_h st + 1) (2 * capacity st)"
  proof (rule ccontr)
    assume "k \<noteq> 1"
    with s(2) have "1 < k" by simp
    from below [OF this] b show False by simp
  qed
  have set1: "set (concat (buckets s1)) = insert md (set (concat (buckets st)))"
    using s(8) by (metis set_mset_mset set_mset_add_mset_insert add_mset_add_single)
  have found: "\<forall>r \<in> set (concat (buckets st)). ht_search_by_filename hf ?st' (filename r) = Ok (Some r)"
  proof
    fix r assume "r \<in> set (concat (buckets st))"
    with set1 have "r \<in> set (concat (buckets s1))" by blast
    from ht_search_found [OF s(6) this]
    show "ht_search_by_filename hf ?st' (filename r) = Ok (Some r)"
      by (simp add: ht_search_update_tag_index)
  qed
  have found_md: "ht_search_by_filename hf ?st' (filename md) = Ok (Some md)"
  proof -
    from set1 have "md \<in> set (concat (buckets s1))" by blast
    from ht_search_found [OF s(6) this] show ?thesis by (simp add: ht_search_update_tag_index)
  qed
  have pos: "length (buckets ?st') = capacity ?st'
      \<and> (\<forall>i < length (buckets ?st'). \<forall>m \<in> set (buckets ?st' ! i).
            nat (hf (filename m) mod int (capacity ?st')) = i)"
    using inv' unfolding ht_inv_def by blast
  have below': "\<forall>j < k. load_factor st < float_div (size_h st + 1) (2 ^ j * capacity st)"
    using below by blast
  show ?thesis
    apply (rule exI[of _ fuel0], rule exI[of _ ?st'], rule exI[of _ k])
    using run s(2,3) fit below' once pos sz s(8) found found_md
    apply (simp add: ht_update_tag_index_fields ht_get_size_def ht_get_capacity_def)
    done
qed

text \<open>
  The fourth \<^verbatim>\<open>insert\<close> into a table of four buckets with load factor 0.75 that holds
  three records: 4 / 4 exceeds 0.75 and 4 / 8 does not, so the capacity becomes 8, and
  the three records stored before are found again, as is the new one.
\<close>

theorem C5_hash_resize_witness:
  "\<exists>fuel0 st'. (\<forall>fuel \<ge> fuel0. ht_insert len_hash fuel table3 (sample ''dddd.txt'' ''dan'' [''work'']) = Ok st')
      \<and> ht_get_capacity st' = 8 \<and> ht_get_size st' = 4
      \<and> ht_search_by_filename len_hash st' ''a.txt'' = Ok (Some (sample ''a.txt'' ''alice'' []))
      \<and> ht_search_by_filename len_hash st' ''bb.txt'' = Ok (Some (sample ''bb.txt'' ''bob'' []))
      \<and> ht_search_by_filename len_hash st' ''ccc.txt'' = Ok (Some (sample ''ccc.txt'' ''carol'' []))
      \<and> ht_search_by_filename len_hash st' ''dddd.txt'' = Ok (Some (sample ''dddd.txt'' ''dan'' [''work'']))"
proof -
  have over: "load_factor table3 < float_div (size_h table3 + 1) (capacity table3)"
    by (simp add: table3_def float_div_4_4)
  from C5_hash_resize [OF table3_ok table3_new over] obtain fuel0 st' k where
    a: "\<forall>fuel \<ge> fuel0. ht_insert len_hash fuel table3 (sample ''dddd.txt'' ''dan'' [''work'']) = Ok st'"
      "ht_get_capacity st' = 2 ^ k * ht_get_capacity table3"
      "\<not> load_factor table3 < float_div (size_h table3 + 1) (2 * capacity table3) \<longrightarrow> k = 1"
      "ht_get_size st' = ht_get_size table3 + 1"
      "\<forall>r \<in> set (concat (buckets table3)). ht_search_by_filename len_hash st' (filename r) = Ok (Some r)"
      "ht_search_by_filename len_hash st' (filename (sample ''dddd.txt'' ''dan'' [''work''])) = Ok (Some (sample ''dddd.txt'' ''dan'' [''work'']))"
    by blast
  from a(3) have "k = 1" by (simp add: table3_def float_div_4_8)
  with a(1,2,4,5,6) show ?thesis
    by (intro exI[of _ fuel0] exI[of _ st'])
       (simp add: table3_def ht_get_capacity_def ht_get_size_def sample_def)
qed

text \<open>
  C3.  2-3 tree.  Every sequence of \<^verbatim>\<open>insert\<close> calls on a new tree returns, and in
  the state it reaches \<^verbatim>\<open>get_size()\<close> is the number of calls and
  \<^verbatim>\<open>list_files\<close> emits every inserted record, each as often as it was inserted.
  One more \<^verbatim>\<open>insert\<close>, of any record, returns as well: the size grows by one and
  the listing gains one occurrence of the record, so the number of listed records with
  its filename grows by one, whether or not the filename was stored before.
\<close>

theorem C3_tt_insert_keeps_duplicates:
  "\<exists>st l. tt_inserts tt_init mds = Ok st
     \<and> tt_get_size st = length mds
     \<and> tt_list_files st ''asc'' = Ok l \<and> mset l = mset mds
     \<and> (\<exists>st' l'. tt_insert st md = Ok st'
          \<and> tt_get_size st' = tt_get_size st + 1
          \<and> tt_list_files st' ''asc'' = Ok l'
          \<and> mset l' = add_mset md (mset l)
          \<and> count (mset (map filename l')) (filename md)
              = Suc (count (mset (map filename l)) (filename md)))"
proof -
  from tt_inserts_ok [OF tt_ok_init, of mds] obtain st where
    st: "tt_inserts tt_init mds = Ok st" "tt_ok st"
      "mset (tt_items st) = mset (tt_items tt_init) + mset mds"
      "size_t st = size_t tt_init + length mds" by blast
  from tt_insert_ok [OF st(2), of md] obtain st' where
    st': "tt_insert st md = Ok st'" "tt_ok st'" "tt_items st' = ins_list md (tt_items st)"
      "size_t st' = size_t st + 1" by blast
  have m: "mset (tt_items st') = add_mset md (mset (tt_items st))" using st'(3) by simp
  have "mset (map filename (tt_items st')) = add_mset (filename md) (mset (map filename (tt_items st)))"
    using m by (metis image_mset_add_mset mset_map)
  then have c: "count (mset (map filename (tt_items st'))) (filename md)
      = Suc (count (mset (map filename (tt_items st))) (filename md))" by simp
  show ?thesis
    using st(1,3,4) st'(1,4) m c tt_list_files_ok(1) [OF st(2)] tt_list_files_ok(1) [OF st'(2)]
    by (intro exI[of _ st] exI[of _ "tt_items st"] conjI exI[of _ st'] exI[of _ "tt_items st'"])
       (simp_all add: tt_get_size_def tt_items_def tt_init_def)
qed

text \<open>
  C1 (B+ tree, size under re-insertion of a filename). \<^verbatim>\<open>insert\<close> executes
  \<^verbatim>\<open>self.size += 1\<close> after \<^verbatim>\<open>_insert_into_leaf\<close> whether that call replaced a record
  or added one. Inserting two records with the filename \<^verbatim>\<open>a.txt\<close> into an empty tree of
  order 4 leaves one record in the leaf, and \<^verbatim>\<open>get_size()\<close> is 2, not 1.
\<close>

theorem C1_bp_size_counts_updates:
  "map_result (\<lambda>st. (bp_get_size st, map_result (map filename) (bp_list_files 2 st ''asc'')))
      (bp_inserts 2 (bp_init 4)
         [sample ''a.txt'' ''alice'' [], sample ''a.txt'' ''bob'' []])
   = Ok (2, Ok [''a.txt''])"
  by (simp add: bp_inserts_def bp_insert_def bp_init_def sample_def insert_into_leaf_def
      bp_get_size_def eval_nat_numeral rbind_def bp_list_files_def update_tag_index_def new_node_def
      node_upd_def Let_def)

end
